theory Spec2Isabelle
  imports Main "HOL-Library.AList"
begin

section \<open>Data model of lib/localparticipant.js\<close>

text \<open>
  The development embeds the class \<open>LocalParticipant\<close> of lib/localparticipant.js.
  JavaScript objects are values whose first field is their identity, so that the strict
  equality \<open>===\<close> of two objects is equality of the values. A \<open>Map\<close> is an association
  list in insertion order (\<open>AList.update\<close> overwrites in place or appends, as \<open>Map.set\<close>
  does; \<open>AList.delete\<close> is \<open>Map.delete\<close>; \<open>map_of\<close> is \<open>Map.get\<close>).
\<close>

datatype Kind = audio | video | data

datatype objref = Supplied nat | Constructed nat

record MediaStreamTrack =
  mst_ref :: nat
  mst_id :: string
  mst_kind :: Kind

text \<open>
  A LocalTrack (LocalAudioTrack, LocalVideoTrack or LocalDataTrack). The property
  \<open>mediaStreamTrack\<close> is \<open>undefined\<close> (here \<open>None\<close>) on a track that wraps no media source.
\<close>

record LocalTrack =
  ref :: objref
  track_id :: string
  kind :: Kind
  mediaStreamTrack :: "MediaStreamTrack option"

text \<open>What a caller can pass where a track is expected.\<close>

datatype jsvalue =
    Undefined
  | LocalTrackV LocalTrack
  | MediaStreamTrackV MediaStreamTrack
  | OtherV

text \<open>What a caller can pass where an array of tracks is expected.\<close>

datatype jsarg = NotArray | Array "jsvalue list"

record LocalTrackPublication =
  track :: LocalTrack
  trackSid :: string

datatype js_error =
    INVALID_TYPE string string
  | TypeError string
  | SignalingError string
  | WasUnpublished LocalTrack
  | CannotBePublished LocalTrack

text \<open>The per-track record of the signaling collaborator, as far as this class reads it.\<close>

record TrackSignaling =
  sid :: "string option"
  error :: "js_error option"

datatype settled = Pending | Resolved LocalTrackPublication | Rejected js_error

text \<open>
  One execution of \<open>new Promise(...)\<close> in \<open>_getOrCreateLocalTrackPublication\<close>: the closure
  variables \<open>localTrack\<close> and \<open>trackSignaling\<close> (an address in the store of signaling
  records), whether the closure \<open>updated\<close> is still attached to the record's
  \<open>'updated'\<close> event, and the state of the promise.
\<close>

record attempt =
  a_track :: LocalTrack
  a_signaling :: nat
  a_attached :: bool
  a_promise :: settled

datatype event =
    trackAdded LocalTrack
  | trackRemoved LocalTrack
  | trackPublished LocalTrackPublication
  | trackPublicationFailed js_error LocalTrack

datatype handler =
    localTrackAdded_h
  | localTrackDisabled_h
  | localTrackEnabled_h
  | localTrackRemoved_h
  | stateChanged_h

text \<open>
  The observable actions, in the order the code performs them: a synchronous
  \<open>emit\<close>, a \<open>setTimeout\<close> whose callback emits, a \<open>removeListener\<close>, a \<open>track.stop()\<close>.
\<close>

datatype effect =
    Emit event
  | SetTimeout event
  | RemoveListener handler
  | Stop LocalTrack

type_synonym 'v jsmap = "(string \<times> 'v) list"

record LocalParticipant =
  tracks :: "LocalTrack jsmap"
  trackPublications :: "LocalTrackPublication jsmap"
  audioTrackPublications :: "LocalTrackPublication jsmap"
  videoTrackPublications :: "LocalTrackPublication jsmap"
  dataTrackPublications :: "LocalTrackPublication jsmap"
  tracksToStop :: "LocalTrack list"
  listeners :: "handler list"
  signaling_state :: string
  signaling_tracks :: "nat jsmap"
  store :: "nat \<Rightarrow> TrackSignaling"
  next_addr :: nat
  attempts :: "attempt list"
  timers :: "event list"
  effects :: "effect list"
  next_ref :: nat

datatype 'a completion = Return 'a | Throw js_error

text \<open>
  What \<open>publishTrack\<close> hands back: a promise already settled, the promise of an attempt,
  the bare publication that \<open>_getOrCreateLocalTrackPublication\<close> returns at its first
  \<open>return\<close>, or an exception.
\<close>

datatype publish_result =
    PromiseSettled settled
  | PromiseOf nat
  | Bare LocalTrackPublication
  | Thrown js_error

section \<open>Helpers\<close>

definition strict_eq_track :: "LocalTrack \<Rightarrow> jsvalue \<Rightarrow> bool" where
  "strict_eq_track t v = (v = LocalTrackV t)"

fun strict_eq_mst :: "MediaStreamTrack option \<Rightarrow> jsvalue \<Rightarrow> bool" where
  "strict_eq_mst None Undefined = True"
| "strict_eq_mst (Some m) (MediaStreamTrackV m') = (m = m')"
| "strict_eq_mst _ _ = False"

text \<open>
  The predicate of \<open>find\<close> in \<open>getTrackPublication\<close>:
  \<open>trackPublication.track === track || trackPublication.track.mediaStreamTrack === track\<close>.
\<close>

definition matches :: "jsvalue \<Rightarrow> LocalTrackPublication \<Rightarrow> bool" where
  "matches t trackPublication =
     (strict_eq_track (track trackPublication) t
      \<or> strict_eq_mst (mediaStreamTrack (track trackPublication)) t)"

definition getTrackPublication ::
  "LocalTrackPublication jsmap \<Rightarrow> jsvalue \<Rightarrow> LocalTrackPublication option" where
  "getTrackPublication pubs t = find (matches t) (map snd pubs)"

definition publishedKindTracks :: "Kind \<Rightarrow> LocalParticipant \<Rightarrow> LocalTrackPublication jsmap" where
  "publishedKindTracks k st =
     (case k of audio \<Rightarrow> audioTrackPublications st
              | video \<Rightarrow> videoTrackPublications st
              | data \<Rightarrow> dataTrackPublications st)"

definition publishedKindTracks_update ::
  "Kind \<Rightarrow> (LocalTrackPublication jsmap \<Rightarrow> LocalTrackPublication jsmap) \<Rightarrow>
   LocalParticipant \<Rightarrow> LocalParticipant" where
  "publishedKindTracks_update k f st =
     (case k of audio \<Rightarrow> st\<lparr>audioTrackPublications := f (audioTrackPublications st)\<rparr>
              | video \<Rightarrow> st\<lparr>videoTrackPublications := f (videoTrackPublications st)\<rparr>
              | data \<Rightarrow> st\<lparr>dataTrackPublications := f (dataTrackPublications st)\<rparr>)"

definition js_Set :: "'a list \<Rightarrow> 'a list" where
  "js_Set xs = rev (remdups (rev xs))"

definition do_effect :: "effect \<Rightarrow> LocalParticipant \<Rightarrow> LocalParticipant" where
  "do_effect e st = st\<lparr>effects := effects st @ [e]\<rparr>"

definition setTimeout :: "event \<Rightarrow> LocalParticipant \<Rightarrow> LocalParticipant" where
  "setTimeout ev st = do_effect (SetTimeout ev) (st\<lparr>timers := timers st @ [ev]\<rparr>)"

definition settle :: "nat \<Rightarrow> settled \<Rightarrow> LocalParticipant \<Rightarrow> LocalParticipant" where
  "settle n v st =
     (if n < length (attempts st) \<and> a_promise (attempts st ! n) = Pending
      then st\<lparr>attempts := (attempts st)[n := (attempts st ! n)\<lparr>a_promise := v\<rparr>]\<rparr>
      else st)"

definition removeListener_updated :: "nat \<Rightarrow> LocalParticipant \<Rightarrow> LocalParticipant" where
  "removeListener_updated n st =
     (if n < length (attempts st)
      then st\<lparr>attempts := (attempts st)[n := (attempts st ! n)\<lparr>a_attached := False\<rparr>]\<rparr>
      else st)"

section \<open>Collaborators that are not in this file\<close>

text \<open>
  Modelled from the spec: \<open>signaling.addTrack\<close> and \<open>signaling.removeTrack\<close> of the
  signaling collaborator (lib/signaling). Section 3: a TrackSignaling record is
  "created when a track is submitted to signaling; destroyed when the track is withdrawn
  from signaling"; section 6: the collaborator offers "a lookup from track identity to its
  TrackSignaling record". A new record has no identifier and no error.
\<close>

definition signaling_addTrack :: "LocalTrack \<Rightarrow> LocalParticipant \<Rightarrow> LocalParticipant" where
  "signaling_addTrack t st =
     st\<lparr>store := (store st)(next_addr st := \<lparr>sid = None, error = None\<rparr>),
        next_addr := Suc (next_addr st),
        signaling_tracks := AList.update (track_id t) (next_addr st) (signaling_tracks st)\<rparr>"

definition signaling_removeTrack :: "LocalTrack \<Rightarrow> LocalParticipant \<Rightarrow> LocalParticipant" where
  "signaling_removeTrack t st =
     st\<lparr>signaling_tracks := AList.delete (track_id t) (signaling_tracks st)\<rparr>"

definition localTrackAdded :: "LocalTrack \<Rightarrow> LocalParticipant \<Rightarrow> LocalParticipant" where
  "localTrackAdded localTrack st = signaling_addTrack localTrack st"

definition localTrackRemoved :: "LocalTrack \<Rightarrow> LocalParticipant \<Rightarrow> LocalParticipant" where
  "localTrackRemoved localTrack st = signaling_removeTrack localTrack st"

text \<open>
  \<open>this.emit\<close>: the event is delivered synchronously to the listeners this class attached
  in \<open>_handleTrackSignalingEvents\<close>. The handlers of \<open>trackDisabled\<close> and \<open>trackEnabled\<close> only
  forward the enabled flag to the signaling record and are not followed further.
\<close>

definition emit :: "event \<Rightarrow> LocalParticipant \<Rightarrow> LocalParticipant" where
  "emit ev st =
     (let st1 = do_effect (Emit ev) st in
      case ev of
        trackAdded t \<Rightarrow>
          if localTrackAdded_h \<in> set (listeners st1) then localTrackAdded t st1 else st1
      | trackRemoved t \<Rightarrow>
          if localTrackRemoved_h \<in> set (listeners st1) then localTrackRemoved t st1 else st1
      | _ \<Rightarrow> st1)"

text \<open>
  Modelled from the spec: \<open>_addTrack\<close> and \<open>_removeTrack\<close> of the base class Participant
  (lib/participant.js). Section 4.1: "addTrack(track) inserts into the identity-keyed
  mapping and the kind-partitioned sub-mapping; no-op (returns falsy) if already present.
  removeTrack(track) reverses this. Both emit a trackAdded/trackRemoved notification
  exactly once per transition (never for a no-op)." The kind-partitioned sub-mappings of
  tracks are not read by lib/localparticipant.js and are left out.
\<close>

definition addTrack' :: "LocalTrack \<Rightarrow> LocalParticipant \<Rightarrow> LocalTrack option \<times> LocalParticipant" where
  "addTrack' t st =
     (if map_of (tracks st) (track_id t) \<noteq> None then (None, st)
      else (Some t, emit (trackAdded t) (st\<lparr>tracks := AList.update (track_id t) t (tracks st)\<rparr>)))"

definition removeTrack' :: "LocalTrack \<Rightarrow> LocalParticipant \<Rightarrow> LocalTrack option \<times> LocalParticipant" where
  "removeTrack' t st =
     (case map_of (tracks st) (track_id t) of
        None \<Rightarrow> (None, st)
      | Some t' \<Rightarrow>
          (Some t', emit (trackRemoved t') (st\<lparr>tracks := AList.delete (track_id t) (tracks st)\<rparr>)))"

text \<open>
  Modelled from the spec: \<open>util.asLocalTrack\<close>, \<open>util.validateLocalTrack\<close> and
  \<open>util.asLocalTrackPublication\<close> (lib/util). Section 4.2: publish "validates the track
  against the accepted type set", unpublish "validates track type"; the accepted types are
  named by the error text of this file: LocalAudioTrack, LocalVideoTrack, LocalDataTrack,
  or MediaStreamTrack. The doc comment of \<open>publishTrack\<close>: for a MediaStreamTrack "this
  method will construct" the corresponding LocalAudioTrack or LocalVideoTrack. Section 2:
  the Publication Factory, "given a local track, its assigned identifier, and an unpublish
  callback, produces ... a Publication object exposing track, identifier, and kind".
\<close>

definition accepted :: "jsvalue \<Rightarrow> bool" where
  "accepted v = (case v of LocalTrackV _ \<Rightarrow> True | MediaStreamTrackV _ \<Rightarrow> True | _ \<Rightarrow> False)"

definition invalid_track :: js_error where
  "invalid_track =
     INVALID_TYPE ''track'' ''LocalAudioTrack, LocalVideoTrack, LocalDataTrack, or MediaStreamTrack''"

definition invalid_tracks :: js_error where
  "invalid_tracks =
     INVALID_TYPE ''tracks''
       ''Array of LocalAudioTrack, LocalVideoTrack, LocalDataTrack, or MediaStreamTrack''"

definition asLocalTrack ::
  "jsvalue \<Rightarrow> LocalParticipant \<Rightarrow> (LocalTrack \<times> LocalParticipant) completion" where
  "asLocalTrack v st =
     (case v of
        LocalTrackV t \<Rightarrow> Return (t, st)
      | MediaStreamTrackV m \<Rightarrow>
          Return (\<lparr>ref = Constructed (next_ref st), track_id = mst_id m,
                   kind = (if mst_kind m = audio then audio else video),
                   mediaStreamTrack = Some m\<rparr>,
                  st\<lparr>next_ref := Suc (next_ref st)\<rparr>)
      | _ \<Rightarrow> Throw invalid_track)"

definition validateLocalTrack :: "jsvalue \<Rightarrow> unit completion" where
  "validateLocalTrack v = (if accepted v then Return () else Throw invalid_track)"

definition asLocalTrackPublication :: "LocalTrack \<Rightarrow> string \<Rightarrow> LocalTrackPublication" where
  "asLocalTrackPublication t s = \<lparr>track = t, trackSid = s\<rparr>"

text \<open>The property \<open>id\<close> of an accepted argument.\<close>

definition id_of :: "jsvalue \<Rightarrow> string option" where
  "id_of v = (case v of LocalTrackV t \<Rightarrow> Some (track_id t)
                      | MediaStreamTrackV m \<Rightarrow> Some (mst_id m)
                      | _ \<Rightarrow> None)"

section \<open>The resolution listener\<close>

text \<open>
  The closure \<open>updated\<close> of \<open>_getOrCreateLocalTrackPublication\<close>, run for attempt \<open>n\<close>.
  The test \<open>!sid\<close> holds for \<open>null\<close> and for the empty string.
\<close>

definition updated :: "nat \<Rightarrow> LocalParticipant \<Rightarrow> LocalParticipant" where
  "updated n st =
     (let a = attempts st ! n;
          localTrack = a_track a;
          trackSignaling = store st (a_signaling a)
      in case error trackSignaling of
           Some err \<Rightarrow>
             (let st1 = removeListener_updated n st;
                  st2 = snd (removeTrack' localTrack st1);
                  st3 = setTimeout (trackPublicationFailed err localTrack) st2
              in settle n (Rejected err) st3)
         | None \<Rightarrow>
             if map_of (tracks st) (track_id localTrack) = None
             then settle n (Rejected (WasUnpublished localTrack)) (removeListener_updated n st)
             else
               (case sid trackSignaling of
                  None \<Rightarrow> st
                | Some s \<Rightarrow>
                    if s = [] then st
                    else
                      (let st1 = removeListener_updated n st;
                           (localTrackPublication, st2) =
                             (case getTrackPublication (trackPublications st1)
                                     (LocalTrackV localTrack) of
                                Some p \<Rightarrow> (p, st1)
                              | None \<Rightarrow>
                                  (let p = asLocalTrackPublication localTrack s
                                   in (p, publishedKindTracks_update (kind localTrack)
                                            (AList.update s p)
                                            (st1\<lparr>trackPublications :=
                                                   AList.update s p (trackPublications st1)\<rparr>))));
                           st3 = (if signaling_state st2 = ''connected''
                                  then setTimeout (trackPublished localTrackPublication) st2
                                  else st2)
                       in settle n (Resolved localTrackPublication) st3)))"

text \<open>
  The \<open>'updated'\<close> event of the record at address \<open>a\<close>: an EventEmitter calls, in the order
  of attachment, the listeners that were attached when the emission started. Every
  closure \<open>updated\<close> is attached once, when its attempt is created, so the order of
  attachment is the order of the attempts.
\<close>

definition updated_listeners :: "nat \<Rightarrow> LocalParticipant \<Rightarrow> nat list" where
  "updated_listeners a st =
     filter (\<lambda>n. a_signaling (attempts st ! n) = a \<and> a_attached (attempts st ! n))
       [0..<length (attempts st)]"

definition emit_updated :: "nat \<Rightarrow> LocalParticipant \<Rightarrow> LocalParticipant" where
  "emit_updated a st = foldl (\<lambda>s n. updated n s) st (updated_listeners a st)"

text \<open>
  Modelled from the spec: \<open>publishFailed\<close> of the TrackSignaling record and the assignment
  of its identifier by the signaling collaborator (lib/signaling). Section 4.2: a track
  goes "unpublished \<rightarrow> submitting \<rightarrow> published, with a terminal failed state reachable
  only from submitting", and \<open>publishFailed\<close> "marks the TrackSignaling record as failed";
  section 3: the error is "present if publication failed", the identifier "present once
  the server acknowledges" and "immutable once set", and the record "emits an updated
  notification on every attribute change". A record is submitting while it holds neither
  an identifier nor an error. Only on a submitting record does \<open>publishFailed\<close> set the
  error, or an assignment set the identifier, and emit \<open>'updated'\<close>; on a record that is
  published or failed the call changes no attribute and emits nothing.
\<close>

definition submitting :: "TrackSignaling \<Rightarrow> bool" where
  "submitting r \<longleftrightarrow> sid r = None \<and> error r = None"

definition publishFailed :: "nat \<Rightarrow> js_error \<Rightarrow> LocalParticipant \<Rightarrow> LocalParticipant" where
  "publishFailed a err st =
     (if submitting (store st a)
      then emit_updated a (st\<lparr>store := (store st)(a := (store st a)\<lparr>error := Some err\<rparr>)\<rparr>)
      else st)"

definition setSid :: "nat \<Rightarrow> string \<Rightarrow> LocalParticipant \<Rightarrow> LocalParticipant" where
  "setSid a s st =
     (if submitting (store st a)
      then emit_updated a (st\<lparr>store := (store st)(a := (store st a)\<lparr>sid := Some s\<rparr>)\<rparr>)
      else st)"

section \<open>Publishing\<close>

definition getOrCreateLocalTrackPublication ::
  "LocalTrack \<Rightarrow> LocalParticipant \<Rightarrow> publish_result \<times> LocalParticipant" where
  "getOrCreateLocalTrackPublication localTrack st =
     (case getTrackPublication (trackPublications st) (LocalTrackV localTrack) of
        Some p \<Rightarrow> (Bare p, st)
      | None \<Rightarrow>
          (case map_of (signaling_tracks st) (track_id localTrack) of
             None \<Rightarrow> (PromiseSettled (Rejected (CannotBePublished localTrack)), st)
           | Some a \<Rightarrow>
               (PromiseOf (length (attempts st)),
                st\<lparr>attempts := attempts st @
                     [\<lparr>a_track = localTrack, a_signaling = a, a_attached = True,
                       a_promise = Pending\<rparr>]\<rparr>)))"

text \<open>
  \<open>publishTrack\<close>. In \<open>_addTrack(localTrack) || this.tracks.get(localTrack.id)\<close> the second
  operand is read only when \<open>_addTrack\<close> found the identity registered; were both
  \<open>undefined\<close>, the property access \<open>localTrack.id\<close> would raise a TypeError.
\<close>

definition publishTrack :: "jsvalue \<Rightarrow> LocalParticipant \<Rightarrow> publish_result \<times> LocalParticipant" where
  "publishTrack localTrackOrMediaStreamTrack st =
     (case getTrackPublication (trackPublications st) localTrackOrMediaStreamTrack of
        Some trackPublication \<Rightarrow> (PromiseSettled (Resolved trackPublication), st)
      | None \<Rightarrow>
          (case asLocalTrack localTrackOrMediaStreamTrack st of
             Throw err \<Rightarrow> (PromiseSettled (Rejected err), st)
           | Return (lt, st0) \<Rightarrow>
               (case addTrack' lt st0 of
                  (Some localTrack, st1) \<Rightarrow> getOrCreateLocalTrackPublication localTrack st1
                | (None, st1) \<Rightarrow>
                    (case map_of (tracks st1) (track_id lt) of
                       Some localTrack \<Rightarrow> getOrCreateLocalTrackPublication localTrack st1
                     | None \<Rightarrow> (Thrown (TypeError ''localTrack is undefined''), st1)))))"

text \<open>
  \<open>tracks.map(this.publishTrack, this)\<close>; the result of \<open>publishTracks\<close> is
  \<open>Promise.all\<close> of the list, represented by the list of its constituents.
\<close>

fun publishTrack_map ::
  "jsvalue list \<Rightarrow> LocalParticipant \<Rightarrow> publish_result list completion \<times> LocalParticipant" where
  "publishTrack_map [] st = (Return [], st)"
| "publishTrack_map (v # vs) st =
     (case publishTrack v st of
        (Thrown err, st1) \<Rightarrow> (Throw err, st1)
      | (r, st1) \<Rightarrow>
          (case publishTrack_map vs st1 of
             (Throw err, st2) \<Rightarrow> (Throw err, st2)
           | (Return rs, st2) \<Rightarrow> (Return (r # rs), st2)))"

definition publishTracks ::
  "jsarg \<Rightarrow> LocalParticipant \<Rightarrow> publish_result list completion \<times> LocalParticipant" where
  "publishTracks tracks_arg st =
     (case tracks_arg of
        NotArray \<Rightarrow> (Throw invalid_tracks, st)
      | Array vs \<Rightarrow> publishTrack_map vs st)"

section \<open>Unpublishing\<close>

definition unpublishTrack ::
  "jsvalue \<Rightarrow> LocalParticipant \<Rightarrow> LocalTrackPublication option completion \<times> LocalParticipant" where
  "unpublishTrack v st =
     (case validateLocalTrack v of
        Throw err \<Rightarrow> (Throw err, st)
      | Return _ \<Rightarrow>
          (case id_of v of
             None \<Rightarrow> (Throw (TypeError ''track is undefined''), st)
           | Some i \<Rightarrow>
               (case map_of (tracks st) i of
                  None \<Rightarrow> (Return None, st)
                | Some localTrack \<Rightarrow>
                    (case map_of (signaling_tracks st) (track_id localTrack) of
                       None \<Rightarrow> (Throw (TypeError ''trackSignaling is undefined''), st)
                     | Some a \<Rightarrow>
                         (let st1 = publishFailed a (WasUnpublished localTrack) st;
                              localTrackPublication =
                                getTrackPublication (trackPublications st1) (LocalTrackV localTrack);
                              st2 = (case localTrackPublication of
                                       None \<Rightarrow> st1
                                     | Some p \<Rightarrow>
                                         (let st' = publishedKindTracks_update (kind localTrack)
                                                      (AList.delete (trackSid p)) st1
                                          in st'\<lparr>trackPublications :=
                                                   AList.delete (trackSid p) (trackPublications st')\<rparr>));
                              st3 = snd (removeTrack' localTrack st2)
                          in (Return localTrackPublication, st3))))))"

text \<open>\<open>tracks.reduce(...)\<close> of \<open>unpublishTracks\<close>: an exception ends the loop.\<close>

fun unpublishTrack_reduce ::
  "LocalTrackPublication list \<Rightarrow> jsvalue list \<Rightarrow> LocalParticipant \<Rightarrow>
   LocalTrackPublication list completion \<times> LocalParticipant" where
  "unpublishTrack_reduce unpublishedTracks [] st = (Return unpublishedTracks, st)"
| "unpublishTrack_reduce unpublishedTracks (v # vs) st =
     (case unpublishTrack v st of
        (Throw err, st1) \<Rightarrow> (Throw err, st1)
      | (Return None, st1) \<Rightarrow> unpublishTrack_reduce unpublishedTracks vs st1
      | (Return (Some p), st1) \<Rightarrow> unpublishTrack_reduce (unpublishedTracks @ [p]) vs st1)"

definition unpublishTracks ::
  "jsarg \<Rightarrow> LocalParticipant \<Rightarrow> LocalTrackPublication list completion \<times> LocalParticipant" where
  "unpublishTracks tracks_arg st =
     (case tracks_arg of
        NotArray \<Rightarrow> (Throw invalid_tracks, st)
      | Array vs \<Rightarrow> unpublishTrack_reduce [] vs st)"

section \<open>Construction and disconnect\<close>

definition removeListener :: "handler \<Rightarrow> LocalParticipant \<Rightarrow> LocalParticipant" where
  "removeListener h st = do_effect (RemoveListener h) (st\<lparr>listeners := remove1 h (listeners st)\<rparr>)"

text \<open>
  Modelled from the spec: \<open>stop\<close> of a LocalTrack (lib/media/track). Section 1: the media
  source is "an opaque resource with start/stop semantics"; section 8: the tracks of the
  auto-stop set "reach a stopped state". The call is recorded.
\<close>

definition stop :: "LocalTrack \<Rightarrow> LocalParticipant \<Rightarrow> LocalParticipant" where
  "stop t st = do_effect (Stop t) st"

text \<open>The listener \<open>stateChanged\<close> attached to the signaling channel.\<close>

definition stateChanged :: "string \<Rightarrow> LocalParticipant \<Rightarrow> LocalParticipant" where
  "stateChanged state st =
     (if state = ''disconnected'' then
        (let st1 = removeListener stateChanged_h st;
             st2 = removeListener localTrackAdded_h st1;
             st3 = removeListener localTrackDisabled_h st2;
             st4 = removeListener localTrackEnabled_h st3;
             st5 = removeListener localTrackRemoved_h st4
         in foldl (\<lambda>s t. stop t s) st5 (tracksToStop st5))
      else st)"

text \<open>
  \<open>_handleTrackSignalingEvents\<close>, called once, by the constructor, when no publication
  exists yet. \<open>this.state\<close> is the state of the signaling channel.
\<close>

definition handleTrackSignalingEvents :: "LocalParticipant \<Rightarrow> LocalParticipant" where
  "handleTrackSignalingEvents st =
     (if signaling_state st = ''disconnected'' then st
      else
        (let st1 = st\<lparr>listeners := listeners st @
                      [localTrackAdded_h, localTrackDisabled_h, localTrackEnabled_h,
                       localTrackRemoved_h]\<rparr>;
             st2 = foldl (\<lambda>s t. snd (getOrCreateLocalTrackPublication t (localTrackAdded t s)))
                     st1 (map snd (tracks st1))
         in st2\<lparr>listeners := listeners st2 @ [stateChanged_h]\<rparr>))"

record Options =
  shouldStopLocalTracks :: "bool option"
  opt_tracks :: "LocalTrack list option"

text \<open>
  Modelled from the spec: the constructor of the base class Participant
  (lib/participant.js), which fills the track registry from \<open>options.tracks\<close>. Section 3:
  the track registry maps "identity \<rightarrow> LocalTrack"; section 4.1: inserting is a "no-op ...
  if already present".
\<close>

definition index_tracks :: "LocalTrack list \<Rightarrow> LocalTrack jsmap" where
  "index_tracks ts =
     foldl (\<lambda>m t. if map_of m (track_id t) \<noteq> None then m else AList.update (track_id t) t m) [] ts"

text \<open>
  The constructor. \<open>Object.assign\<close> lets \<open>options.tracks\<close> replace \<open>localTracks\<close> as the
  content of the registry; the auto-stop set is computed from \<open>localTracks\<close>.
\<close>

definition LocalParticipant_new ::
  "string \<Rightarrow> LocalTrack list \<Rightarrow> Options \<Rightarrow> LocalParticipant" where
  "LocalParticipant_new state localTracks options =
     (let should = (case shouldStopLocalTracks options of None \<Rightarrow> False | Some b \<Rightarrow> b);
          toStop = (if should then js_Set (filter (\<lambda>localTrack. kind localTrack \<noteq> data) localTracks)
                    else []);
          registry = (case opt_tracks options of None \<Rightarrow> localTracks | Some ts \<Rightarrow> ts)
      in handleTrackSignalingEvents
           \<lparr>tracks = index_tracks registry,
            trackPublications = [],
            audioTrackPublications = [],
            videoTrackPublications = [],
            dataTrackPublications = [],
            tracksToStop = toStop,
            listeners = [],
            signaling_state = state,
            signaling_tracks = [],
            store = (\<lambda>_. \<lparr>sid = None, error = None\<rparr>),
            next_addr = 0,
            attempts = [],
            timers = [],
            effects = [],
            next_ref = 0\<rparr>)"

section \<open>What happens to a participant\<close>

text \<open>
  The signaling channel changes state and emits \<open>'stateChanged'\<close>; a timer fires and its
  callback emits the notification that was scheduled.
\<close>

definition signaling_stateChanged :: "string \<Rightarrow> LocalParticipant \<Rightarrow> LocalParticipant" where
  "signaling_stateChanged state st =
     (let st1 = st\<lparr>signaling_state := state\<rparr>
      in if stateChanged_h \<in> set (listeners st1) then stateChanged state st1 else st1)"

definition run_timer :: "LocalParticipant \<Rightarrow> LocalParticipant" where
  "run_timer st = (case timers st of [] \<Rightarrow> st | ev # rest \<Rightarrow> emit ev (st\<lparr>timers := rest\<rparr>))"

datatype action =
    PublishTrack jsvalue
  | PublishTracks jsarg
  | UnpublishTrack jsvalue
  | UnpublishTracks jsarg
  | SetSid nat string
  | PublishFailed nat js_error
  | StateChanged string
  | Timer

fun step :: "action \<Rightarrow> LocalParticipant \<Rightarrow> LocalParticipant" where
  "step (PublishTrack v) st = snd (publishTrack v st)"
| "step (PublishTracks vs) st = snd (publishTracks vs st)"
| "step (UnpublishTrack v) st = snd (unpublishTrack v st)"
| "step (UnpublishTracks vs) st = snd (unpublishTracks vs st)"
| "step (SetSid a s) st = setSid a s st"
| "step (PublishFailed a err) st = publishFailed a err st"
| "step (StateChanged state) st = signaling_stateChanged state st"
| "step Timer st = run_timer st"

definition run :: "action list \<Rightarrow> LocalParticipant \<Rightarrow> LocalParticipant" where
  "run as st = foldl (\<lambda>s a. step a s) st as"

section \<open>Views of the state and example participants\<close>

text \<open>The auto-stop set together with the calls of \<open>track.stop()\<close> made so far.\<close>

definition stop_view :: "LocalParticipant \<Rightarrow> LocalTrack list \<times> effect list" where
  "stop_view st = (tracksToStop st, filter (\<lambda>e. case e of Stop _ \<Rightarrow> True | _ \<Rightarrow> False) (effects st))"


text \<open>Two caller-supplied tracks, an audio track and a data track, and two option objects.\<close>

definition tA :: LocalTrack where
  "tA = \<lparr>ref = Supplied 0, track_id = ''a'', kind = audio, mediaStreamTrack = None\<rparr>"

definition tD :: LocalTrack where
  "tD = \<lparr>ref = Supplied 1, track_id = ''d'', kind = data, mediaStreamTrack = None\<rparr>"

definition opts_stop :: Options where
  "opts_stop = \<lparr>shouldStopLocalTracks = Some True, opt_tracks = None\<rparr>"

definition opts_default :: Options where
  "opts_default = \<lparr>shouldStopLocalTracks = None, opt_tracks = None\<rparr>"

text \<open>A connected participant constructed with both tracks.\<close>

definition s0 :: LocalParticipant where
  "s0 = LocalParticipant_new ''connected'' [tA, tD] opts_stop"

text \<open>The same participant after the signaling record of \<open>tA\<close> received the identifier TR1.\<close>

definition s1 :: LocalParticipant where
  "s1 = run [SetSid 0 ''TR1''] s0"

definition pA :: LocalTrackPublication where
  "pA = \<lparr>track = tA, trackSid = ''TR1''\<rparr>"

text \<open>
  When one attempt is later than another: the closure variables are the same, a settled
  promise keeps its value, a detached listener stays detached.
\<close>

definition attempt_le :: "attempt \<Rightarrow> attempt \<Rightarrow> bool" where
  "attempt_le a b =
     (a_track b = a_track a \<and> a_signaling b = a_signaling a
      \<and> (a_promise a \<noteq> Pending \<longrightarrow> a_promise b = a_promise a)
      \<and> (\<not> a_attached a \<longrightarrow> \<not> a_attached b))"

definition attempts_ext :: "LocalParticipant \<Rightarrow> LocalParticipant \<Rightarrow> bool" where
  "attempts_ext st st' =
     (length (attempts st) \<le> length (attempts st')
      \<and> (\<forall>n < length (attempts st). attempt_le (attempts st ! n) (attempts st' ! n)))"

text \<open>
  States in the middle of an emission of \<open>'updated'\<close>: the record of \<open>tA\<close> has just
  received an error, or the identifier TR1 (the last one on a participant that is still
  connecting).
\<close>

definition s0_err :: LocalParticipant where
  "s0_err = s0\<lparr>store := (store s0)(0 := (store s0 0)\<lparr>error := Some (SignalingError ''rejected'')\<rparr>)\<rparr>"

definition s0_sid :: LocalParticipant where
  "s0_sid = s0\<lparr>store := (store s0)(0 := (store s0 0)\<lparr>sid := Some ''TR1''\<rparr>)\<rparr>"

definition c0_sid :: LocalParticipant where
  "c0_sid = (let c0 = LocalParticipant_new ''connecting'' [tA, tD] opts_stop
             in c0\<lparr>store := (store c0)(0 := (store c0 0)\<lparr>sid := Some ''TR1''\<rparr>)\<rparr>)"

text \<open>
  A third caller-supplied track, published after the participant was disconnected.
\<close>

definition tB :: LocalTrack where
  "tB = \<lparr>ref = Supplied 2, track_id = ''b'', kind = video, mediaStreamTrack = None\<rparr>"

definition s_down :: LocalParticipant where
  "s_down = run [StateChanged ''disconnected'', PublishTrack (LocalTrackV tB)] s0"

text \<open>The four publication registries.\<close>

definition pubs_view ::
  "LocalParticipant \<Rightarrow> LocalTrackPublication jsmap \<times> LocalTrackPublication jsmap
     \<times> LocalTrackPublication jsmap \<times> LocalTrackPublication jsmap" where
  "pubs_view st = (trackPublications st, audioTrackPublications st, videoTrackPublications st,
                   dataTrackPublications st)"

text \<open>The attempt after its listener ran the error branch.\<close>

definition failed_attempt :: "js_error \<Rightarrow> attempt \<Rightarrow> attempt" where
  "failed_attempt err a =
     a\<lparr>a_attached := False,
       a_promise := (if a_promise a = Pending then Rejected err else a_promise a)\<rparr>"

text \<open>A state in which the track of the first attempt has left the registry.\<close>

definition s0_gone :: LocalParticipant where
  "s0_gone = s0\<lparr>tracks := AList.delete ''a'' (tracks s0)\<rparr>"

text \<open>
  The invariant of a participant. Track registry: every track is stored under its own
  identity. Publication registries: the identifiers of the flat registry are distinct, a
  publication is stored under its own identifier, its track is registered, no track has
  two publications, and every entry of a kind-partitioned registry is an entry of the
  flat one for a track of that kind. Signaling lookup: different identities have
  different records, all of them allocated. Attempts: the record of an attempt is
  allocated; a listener is live when it is attached to a record that can still emit
  \<open>'updated'\<close>, and a live listener belongs to a registered track without publication and
  to the current record of that track. Timers: only publication notifications are
  scheduled. Between operations the records that can still emit are the submitting ones;
  during an emission the emitting record \<open>a\<close> is one more (\<open>A = {a}\<close>).
\<close>

definition inv_tracks :: "LocalParticipant \<Rightarrow> bool" where
  "inv_tracks st \<longleftrightarrow> (\<forall>i t. map_of (tracks st) i = Some t \<longrightarrow> track_id t = i)"

definition inv_pubs :: "LocalParticipant \<Rightarrow> bool" where
  "inv_pubs st \<longleftrightarrow>
     distinct (map fst (trackPublications st))
     \<and> (\<forall>s p. map_of (trackPublications st) s = Some p \<longrightarrow>
           trackSid p = s \<and> map_of (tracks st) (track_id (track p)) = Some (track p))
     \<and> (\<forall>s1 p1 s2 p2. map_of (trackPublications st) s1 = Some p1 \<longrightarrow>
           map_of (trackPublications st) s2 = Some p2 \<longrightarrow> track p1 = track p2 \<longrightarrow> s1 = s2)
     \<and> (\<forall>k s p. map_of (publishedKindTracks k st) s = Some p \<longrightarrow>
           map_of (trackPublications st) s = Some p \<and> kind (track p) = k)"

definition inv_signaling :: "LocalParticipant \<Rightarrow> bool" where
  "inv_signaling st \<longleftrightarrow>
     (\<forall>i j a. map_of (signaling_tracks st) i = Some a \<longrightarrow>
         map_of (signaling_tracks st) j = Some a \<longrightarrow> i = j)
     \<and> (\<forall>i a. map_of (signaling_tracks st) i = Some a \<longrightarrow> a < next_addr st)"

definition live :: "nat set \<Rightarrow> LocalParticipant \<Rightarrow> attempt \<Rightarrow> bool" where
  "live A st a \<longleftrightarrow>
     a_attached a \<and> (a_signaling a \<in> A \<or> submitting (store st (a_signaling a)))"

definition attempt_ok :: "nat set \<Rightarrow> LocalParticipant \<Rightarrow> attempt \<Rightarrow> bool" where
  "attempt_ok A st a \<longleftrightarrow>
     a_signaling a < next_addr st
     \<and> (live A st a \<longrightarrow>
          map_of (tracks st) (track_id (a_track a)) = Some (a_track a)
          \<and> map_of (signaling_tracks st) (track_id (a_track a)) = Some (a_signaling a)
          \<and> (\<forall>s p. map_of (trackPublications st) s = Some p \<longrightarrow> track p \<noteq> a_track a))"

definition inv_attempts :: "nat set \<Rightarrow> LocalParticipant \<Rightarrow> bool" where
  "inv_attempts A st \<longleftrightarrow> (\<forall>n < length (attempts st). attempt_ok A st (attempts st ! n))"

definition inv_timers :: "LocalParticipant \<Rightarrow> bool" where
  "inv_timers st \<longleftrightarrow> (\<forall>ev \<in> set (timers st). \<forall>t. ev \<noteq> trackAdded t \<and> ev \<noteq> trackRemoved t)"

definition emitting_inv :: "nat set \<Rightarrow> LocalParticipant \<Rightarrow> bool" where
  "emitting_inv A st \<longleftrightarrow>
     inv_tracks st \<and> inv_pubs st \<and> inv_signaling st \<and> inv_attempts A st \<and> inv_timers st"

definition participant_inv :: "LocalParticipant \<Rightarrow> bool" where
  "participant_inv st \<longleftrightarrow> emitting_inv {} st"

text \<open>
  Registry consistency: every identifier present in one of the four publication
  registries belongs to a publication whose track is in the track registry.
\<close>

definition publication_registries :: "LocalParticipant \<Rightarrow> LocalTrackPublication jsmap list" where
  "publication_registries st =
     [trackPublications st, audioTrackPublications st, videoTrackPublications st,
      dataTrackPublications st]"

definition registry_consistent :: "LocalParticipant \<Rightarrow> bool" where
  "registry_consistent st \<longleftrightarrow>
     (\<forall>reg \<in> set (publication_registries st). \<forall>s \<in> fst ` set reg.
        case map_of reg s of
          None \<Rightarrow> False
        | Some p \<Rightarrow> map_of (tracks st) (track_id (track p)) = Some (track p))"

text \<open>
  The condition on the identifiers that the signaling collaborator assigns: an assignment
  that takes effect, that is, one to a record that holds neither an identifier nor an
  error, uses an identifier that is no key of the flat publication registry at that
  moment. An assignment to a record that already holds an identifier or an error has no
  effect and is admissible whatever the identifier. A run is admissible when every
  assignment in it is.
\<close>

fun admissible :: "action \<Rightarrow> LocalParticipant \<Rightarrow> bool" where
  "admissible (SetSid a s) st =
     (s \<notin> fst ` set (trackPublications st) \<or> \<not> submitting (store st a))"
| "admissible _ st = True"

fun admissible_run :: "action list \<Rightarrow> LocalParticipant \<Rightarrow> bool" where
  "admissible_run [] st = True"
| "admissible_run (a # as) st = (admissible a st \<and> admissible_run as (step a st))"

text \<open>
  A run that publishes two tracks (the identifier of the first is assigned twice),
  unpublishes one, disconnects, unpublishes the other.
\<close>

definition c2_run :: "action list" where
  "c2_run = [SetSid 0 ''TR1'', SetSid 0 ''TR1'', PublishTrack (LocalTrackV tB),
             SetSid 2 ''TR2'', UnpublishTrack (LocalTrackV tA), StateChanged ''disconnected'',
             UnpublishTrack (LocalTrackV tB)]"

text \<open>A run in which the signaling collaborator gives two tracks the same identifier.\<close>

definition shared_sid_run :: "action list" where
  "shared_sid_run = [SetSid 0 ''TR1'', SetSid 1 ''TR1'', UnpublishTrack (LocalTrackV tA)]"

text \<open>The participant \<open>s0\<close> after the signaling channel disconnected.\<close>

definition s_off :: LocalParticipant where
  "s_off = run [StateChanged ''disconnected''] s0"

text \<open>
  A run after which the track \<open>tA\<close> is registered again and its publish is pending on
  the record that was published before the disconnect: the record still holds TR1.
\<close>

definition stale_run :: "action list" where
  "stale_run = [SetSid 0 ''TR1'', StateChanged ''disconnected'',
                UnpublishTrack (LocalTrackV tA), PublishTrack (LocalTrackV tA)]"

definition s_stale :: LocalParticipant where
  "s_stale = run stale_run s0"

section \<open>The auto-stop set\<close>

lemma stop_view_emit: "stop_view (emit ev st) = stop_view st"
  by (simp add: stop_view_def emit_def do_effect_def localTrackAdded_def localTrackRemoved_def
      signaling_addTrack_def signaling_removeTrack_def Let_def split: event.splits)

lemma stop_view_removeTrack': "stop_view (snd (removeTrack' t st)) = stop_view st"
  by (simp add: removeTrack'_def stop_view_emit split: option.splits) (simp add: stop_view_def)

lemma stop_view_addTrack': "stop_view (snd (addTrack' t st)) = stop_view st"
  by (simp add: addTrack'_def stop_view_emit) (simp add: stop_view_def)

lemma stop_view_settle: "stop_view (settle n v st) = stop_view st"
  by (simp add: settle_def stop_view_def)

lemma stop_view_removeListener_updated: "stop_view (removeListener_updated n st) = stop_view st"
  by (simp add: removeListener_updated_def stop_view_def)

lemma stop_view_setTimeout: "stop_view (setTimeout ev st) = stop_view st"
  by (simp add: setTimeout_def do_effect_def stop_view_def)

lemma stop_view_kind_update: "stop_view (publishedKindTracks_update k f st) = stop_view st"
  by (simp add: publishedKindTracks_update_def stop_view_def split: Kind.splits)

lemma stop_view_pubs_update: "stop_view (st\<lparr>trackPublications := x\<rparr>) = stop_view st"
  by (simp add: stop_view_def)

lemma stop_view_updated: "stop_view (updated n st) = stop_view st"
  by (simp add: updated_def Let_def stop_view_settle stop_view_setTimeout stop_view_removeTrack'
      stop_view_removeListener_updated stop_view_kind_update stop_view_pubs_update
      split: option.splits prod.splits)

lemma stop_view_foldl_updated: "stop_view (foldl (\<lambda>s n. updated n s) st ns) = stop_view st"
  by (induction ns arbitrary: st) (simp_all add: stop_view_updated)

lemma stop_view_emit_updated: "stop_view (emit_updated a st) = stop_view st"
  by (simp add: emit_updated_def stop_view_foldl_updated)

lemma stop_view_store_update: "stop_view (st\<lparr>store := x\<rparr>) = stop_view st"
  by (simp add: stop_view_def)

lemma stop_view_publishFailed: "stop_view (publishFailed a err st) = stop_view st"
  by (simp add: publishFailed_def stop_view_emit_updated stop_view_store_update)

lemma stop_view_setSid: "stop_view (setSid a s st) = stop_view st"
  by (simp add: setSid_def stop_view_emit_updated stop_view_store_update)

lemma stop_view_getOrCreate:
  "stop_view (snd (getOrCreateLocalTrackPublication t st)) = stop_view st"
  by (simp add: getOrCreateLocalTrackPublication_def stop_view_def split: option.splits)

lemma stop_view_asLocalTrack:
  "asLocalTrack v st = Return (t, st') \<Longrightarrow> stop_view st' = stop_view st"
  by (auto simp: asLocalTrack_def stop_view_def split: jsvalue.splits)

lemma stop_view_publishTrack: "stop_view (snd (publishTrack v st)) = stop_view st"
proof (cases "getTrackPublication (trackPublications st) v")
  case (Some p)
  then show ?thesis by (simp add: publishTrack_def)
next
  case None
  show ?thesis
  proof (cases "asLocalTrack v st")
    case (Throw err)
    with None show ?thesis by (simp add: publishTrack_def)
  next
    case (Return r)
    obtain t st0 where r: "r = (t, st0)" by (cases r)
    have st0: "stop_view st0 = stop_view st"
      using Return r stop_view_asLocalTrack by blast
    obtain added st1 where a: "addTrack' t st0 = (added, st1)" by (cases "addTrack' t st0")
    have st1: "stop_view st1 = stop_view st"
      using stop_view_addTrack' [of t st0] a st0 by simp
    show ?thesis
      using None Return r a st1
      by (simp add: publishTrack_def stop_view_getOrCreate split: option.splits)
  qed
qed

lemma stop_view_publishTrack_map: "stop_view (snd (publishTrack_map vs st)) = stop_view st"
proof (induction vs arbitrary: st)
  case Nil
  then show ?case by simp
next
  case (Cons v vs)
  obtain r st1 where p: "publishTrack v st = (r, st1)" by (cases "publishTrack v st")
  have st1: "stop_view st1 = stop_view st"
    using stop_view_publishTrack [of v st] p by simp
  obtain c st2 where m: "publishTrack_map vs st1 = (c, st2)" by (cases "publishTrack_map vs st1")
  have st2: "stop_view st2 = stop_view st"
    using Cons.IH [of st1] m st1 by simp
  show ?case
    using p m st1 st2 by (simp split: publish_result.splits completion.splits)
qed

lemma stop_view_publishTracks: "stop_view (snd (publishTracks vs st)) = stop_view st"
  by (simp add: publishTracks_def stop_view_publishTrack_map split: jsarg.splits)

lemma stop_view_unpublishTrack: "stop_view (snd (unpublishTrack v st)) = stop_view st"
  by (simp add: unpublishTrack_def Let_def stop_view_removeTrack' stop_view_publishFailed
      stop_view_kind_update stop_view_pubs_update split: completion.splits option.splits)

lemma stop_view_unpublishTrack_reduce:
  "stop_view (snd (unpublishTrack_reduce acc vs st)) = stop_view st"
proof (induction vs arbitrary: acc st)
  case Nil
  then show ?case by simp
next
  case (Cons v vs)
  obtain r st1 where u: "unpublishTrack v st = (r, st1)" by (cases "unpublishTrack v st")
  have st1: "stop_view st1 = stop_view st"
    using stop_view_unpublishTrack [of v st] u by simp
  show ?case
    using u st1 Cons.IH by (simp split: completion.splits option.splits)
qed

lemma stop_view_unpublishTracks: "stop_view (snd (unpublishTracks vs st)) = stop_view st"
  by (simp add: unpublishTracks_def stop_view_unpublishTrack_reduce split: jsarg.splits)

lemma stop_view_run_timer: "stop_view (run_timer st) = stop_view st"
  by (simp add: run_timer_def stop_view_emit split: list.splits) (simp add: stop_view_def)

lemma stop_view_removeListener: "stop_view (removeListener h st) = stop_view st"
  by (simp add: removeListener_def do_effect_def stop_view_def)

lemma stop_view_foldl_stop:
  "stop_view (foldl (\<lambda>s t. stop t s) st ts) = (fst (stop_view st), snd (stop_view st) @ map Stop ts)"
  by (induction ts arbitrary: st) (simp_all add: stop_def do_effect_def stop_view_def)

lemma stop_view_stateChanged:
  "stop_view (stateChanged state st) =
     (fst (stop_view st),
      snd (stop_view st) @ (if state = ''disconnected'' then map Stop (tracksToStop st) else []))"
proof (cases "state = ''disconnected''")
  case True
  let ?st5 = "removeListener localTrackRemoved_h (removeListener localTrackEnabled_h
      (removeListener localTrackDisabled_h (removeListener localTrackAdded_h
      (removeListener stateChanged_h st))))"
  have v: "stop_view ?st5 = stop_view st"
    by (simp add: stop_view_removeListener)
  then have t: "tracksToStop ?st5 = tracksToStop st"
    by (simp add: stop_view_def)
  show ?thesis
    using True v t by (simp add: stateChanged_def Let_def stop_view_foldl_stop)
next
  case False
  then show ?thesis by (simp add: stateChanged_def)
qed

lemma stop_view_signaling_stateChanged:
  "tracksToStop st = [] \<Longrightarrow> stop_view (signaling_stateChanged state st) = stop_view st"
  by (simp add: signaling_stateChanged_def Let_def stop_view_stateChanged)
     (simp add: stop_view_def)

lemma tracksToStop_signaling_stateChanged:
  "tracksToStop (signaling_stateChanged state st) = tracksToStop st"
proof -
  have "fst (stop_view (signaling_stateChanged state st)) = fst (stop_view st)"
    by (simp add: signaling_stateChanged_def Let_def stop_view_stateChanged) (simp add: stop_view_def)
  then show ?thesis by (simp add: stop_view_def)
qed

lemma tracksToStop_step: "tracksToStop (step a st) = tracksToStop st"
proof (cases a)
  case (StateChanged state)
  then show ?thesis by (simp add: tracksToStop_signaling_stateChanged)
next
  case (PublishTrack v)
  have "fst (stop_view (step a st)) = fst (stop_view st)"
    using PublishTrack by (simp add: stop_view_publishTrack)
  then show ?thesis by (simp add: stop_view_def)
next
  case (PublishTracks vs)
  have "fst (stop_view (step a st)) = fst (stop_view st)"
    using PublishTracks by (simp add: stop_view_publishTracks)
  then show ?thesis by (simp add: stop_view_def)
next
  case (UnpublishTrack v)
  have "fst (stop_view (step a st)) = fst (stop_view st)"
    using UnpublishTrack by (simp add: stop_view_unpublishTrack)
  then show ?thesis by (simp add: stop_view_def)
next
  case (UnpublishTracks vs)
  have "fst (stop_view (step a st)) = fst (stop_view st)"
    using UnpublishTracks by (simp add: stop_view_unpublishTracks)
  then show ?thesis by (simp add: stop_view_def)
next
  case (SetSid x s)
  have "fst (stop_view (step a st)) = fst (stop_view st)"
    using SetSid by (simp add: stop_view_setSid)
  then show ?thesis by (simp add: stop_view_def)
next
  case (PublishFailed x err)
  have "fst (stop_view (step a st)) = fst (stop_view st)"
    using PublishFailed by (simp add: stop_view_publishFailed)
  then show ?thesis by (simp add: stop_view_def)
next
  case Timer
  have "fst (stop_view (step a st)) = fst (stop_view st)"
    using Timer by (simp add: stop_view_run_timer)
  then show ?thesis by (simp add: stop_view_def)
qed

lemma stop_view_step:
  "tracksToStop st = [] \<Longrightarrow> stop_view (step a st) = stop_view st"
  by (cases a)
     (simp_all add: stop_view_publishTrack stop_view_publishTracks stop_view_unpublishTrack
       stop_view_unpublishTracks stop_view_setSid stop_view_publishFailed stop_view_run_timer
       stop_view_signaling_stateChanged)

lemma tracksToStop_run: "tracksToStop (run as st) = tracksToStop st"
  unfolding run_def by (induction as arbitrary: st) (simp_all add: tracksToStop_step)

lemma stop_view_run: "tracksToStop st = [] \<Longrightarrow> stop_view (run as st) = stop_view st"
  unfolding run_def
proof (induction as arbitrary: st)
  case Nil
  then show ?case by simp
next
  case (Cons a as)
  have "tracksToStop (step a st) = []"
    using Cons.prems by (simp add: tracksToStop_step)
  then show ?case
    using Cons.IH [of "step a st"] Cons.prems by (simp add: stop_view_step)
qed

lemma stop_view_handle_fold:
  "stop_view (foldl (\<lambda>s t. snd (getOrCreateLocalTrackPublication t (localTrackAdded t s))) st ts)
     = stop_view st"
proof (induction ts arbitrary: st)
  case Nil
  then show ?case by simp
next
  case (Cons t ts)
  have "stop_view (localTrackAdded t st) = stop_view st"
    by (simp add: localTrackAdded_def signaling_addTrack_def stop_view_def)
  then show ?case
    using Cons.IH by (simp add: stop_view_getOrCreate)
qed

lemma stop_view_handleTrackSignalingEvents:
  "stop_view (handleTrackSignalingEvents st) = stop_view st"
proof -
  have l: "\<And>s x. stop_view (s\<lparr>listeners := x\<rparr>) = stop_view s"
    by (simp add: stop_view_def)
  show ?thesis
    by (simp add: handleTrackSignalingEvents_def Let_def l stop_view_handle_fold)
qed

lemma set_js_Set: "set (js_Set xs) = set xs"
  by (simp add: js_Set_def)

lemma distinct_js_Set: "distinct (js_Set xs)"
  by (simp add: js_Set_def)

lemma stop_view_new:
  "stop_view (LocalParticipant_new state localTracks options) =
     (if shouldStopLocalTracks options = Some True
      then js_Set (filter (\<lambda>t. kind t \<noteq> data) localTracks) else [], [])"
  by (simp add: LocalParticipant_new_def Let_def stop_view_handleTrackSignalingEvents)
     (auto simp: stop_view_def split: option.splits)

text \<open>
  C10. The auto-stop set is fixed at construction and never holds a data track: with
  \<open>shouldStopLocalTracks\<close> true it is exactly the set of the constructor's local tracks
  whose kind is not data; otherwise (also by default) it is empty and no sequence of
  operations and events, a disconnect included, stops a track; no operation or event
  changes the set.
\<close>

theorem tracksToStop_fixed_at_construction:
  "(shouldStopLocalTracks options = Some True \<longrightarrow>
      set (tracksToStop (LocalParticipant_new state localTracks options))
        = {t \<in> set localTracks. kind t \<noteq> data}
      \<and> distinct (tracksToStop (LocalParticipant_new state localTracks options)))
   \<and> (shouldStopLocalTracks options \<noteq> Some True \<longrightarrow>
        tracksToStop (LocalParticipant_new state localTracks options) = []
        \<and> (\<forall>as t. Stop t \<notin> set (effects (run as (LocalParticipant_new state localTracks options)))))
   \<and> (\<forall>as. tracksToStop (run as (LocalParticipant_new state localTracks options))
          = tracksToStop (LocalParticipant_new state localTracks options))"
proof -
  let ?st0 = "LocalParticipant_new state localTracks options"
  have v: "stop_view ?st0 =
     (if shouldStopLocalTracks options = Some True
      then js_Set (filter (\<lambda>t. kind t \<noteq> data) localTracks) else [], [])"
    by (rule stop_view_new)
  have t: "tracksToStop ?st0 = (if shouldStopLocalTracks options = Some True
      then js_Set (filter (\<lambda>t. kind t \<noteq> data) localTracks) else [])"
    using v by (simp add: stop_view_def)
  have a: "shouldStopLocalTracks options = Some True \<longrightarrow>
      set (tracksToStop ?st0) = {t \<in> set localTracks. kind t \<noteq> data} \<and> distinct (tracksToStop ?st0)"
    using t by (auto simp: set_js_Set distinct_js_Set)
  have b: "shouldStopLocalTracks options \<noteq> Some True \<longrightarrow> tracksToStop ?st0 = []"
    using t by simp
  have c: "shouldStopLocalTracks options \<noteq> Some True \<longrightarrow>
      (\<forall>as t. Stop t \<notin> set (effects (run as ?st0)))"
  proof (intro impI allI)
    fix as t
    assume n: "shouldStopLocalTracks options \<noteq> Some True"
    then have "tracksToStop ?st0 = []" using b by simp
    then have "stop_view (run as ?st0) = stop_view ?st0" by (rule stop_view_run)
    then have "filter (\<lambda>e. case e of Stop _ \<Rightarrow> True | _ \<Rightarrow> False) (effects (run as ?st0)) = []"
      using v by (simp add: stop_view_def)
    then show "Stop t \<notin> set (effects (run as ?st0))"
      by (auto simp: filter_empty_conv)
  qed
  show ?thesis using a b c tracksToStop_run by blast
qed


theorem tracksToStop_fixed_at_construction_witness:
  "shouldStopLocalTracks opts_stop = Some True
   \<and> shouldStopLocalTracks opts_default \<noteq> Some True
   \<and> set (tracksToStop (LocalParticipant_new ''connected'' [tA, tD] opts_stop)) = {tA}
   \<and> tracksToStop (run [StateChanged ''disconnected'']
         (LocalParticipant_new ''connected'' [tA, tD] opts_stop))
       = tracksToStop (LocalParticipant_new ''connected'' [tA, tD] opts_stop)
   \<and> Stop tA \<notin> set (effects (run [StateChanged ''disconnected'']
         (LocalParticipant_new ''connected'' [tA, tD] opts_default)))"
proof -
  have h1: "shouldStopLocalTracks opts_stop = Some True"
    by (simp add: opts_stop_def)
  have h2: "shouldStopLocalTracks opts_default \<noteq> Some True"
    by (simp add: opts_default_def)
  have k: "{t \<in> set [tA, tD]. kind t \<noteq> data} = {tA}"
    by (auto simp: tA_def tD_def)
  show ?thesis
    using h1 h2 k
      tracksToStop_fixed_at_construction
        [where options = opts_stop and state = "''connected''" and localTracks = "[tA, tD]"]
      tracksToStop_fixed_at_construction
        [where options = opts_default and state = "''connected''" and localTracks = "[tA, tD]"]
    by simp
qed

section \<open>Publishing a published track again\<close>

lemma getTrackPublication_Some:
  "getTrackPublication pubs v = Some p \<Longrightarrow> p \<in> snd ` set pubs \<and> matches v p"
  by (auto simp: getTrackPublication_def find_Some_iff)

lemma getTrackPublication_None:
  "getTrackPublication pubs v = None \<longleftrightarrow> (\<forall>p \<in> snd ` set pubs. \<not> matches v p)"
  by (auto simp: getTrackPublication_def find_None_iff)

text \<open>
  C3. \<open>publishTrack\<close> is idempotent: when the publication registry holds a publication
  whose track is the argument, or whose track wraps the argument as its media source,
  \<open>publishTrack\<close> returns a promise resolved with such a publication (the first one in
  the registry, hence that one when it is the only one), and the whole state (registries,
  notifications emitted and scheduled) is unchanged.
\<close>

theorem publishTrack_idempotent:
  assumes "q \<in> snd ` set (trackPublications st)"
    and "v = LocalTrackV (track q)
         \<or> (\<exists>m. mediaStreamTrack (track q) = Some m \<and> v = MediaStreamTrackV m)"
  shows "\<exists>p. p \<in> snd ` set (trackPublications st)
           \<and> (v = LocalTrackV (track p)
              \<or> (\<exists>m. mediaStreamTrack (track p) = Some m \<and> v = MediaStreamTrackV m))
           \<and> getTrackPublication (trackPublications st) v = Some p
           \<and> publishTrack v st = (PromiseSettled (Resolved p), st)"
proof -
  have "matches v q"
    using assms(2) by (auto simp: matches_def strict_eq_track_def)
  then have "getTrackPublication (trackPublications st) v \<noteq> None"
    using assms(1) by (auto simp: getTrackPublication_None)
  then obtain p where p: "getTrackPublication (trackPublications st) v = Some p"
    by blast
  then have m: "p \<in> snd ` set (trackPublications st)" "matches v p"
    using getTrackPublication_Some by blast+
  have shape: "v = LocalTrackV (track p)
      \<or> (\<exists>m. mediaStreamTrack (track p) = Some m \<and> v = MediaStreamTrackV m)"
  proof (cases v)
    case (LocalTrackV t)
    then show ?thesis using m(2) by (auto simp: matches_def strict_eq_track_def)
  next
    case (MediaStreamTrackV x)
    then show ?thesis
      using m(2) by (cases "mediaStreamTrack (track p)") (auto simp: matches_def strict_eq_track_def)
  next
    case Undefined
    then show ?thesis using assms(2) by auto
  next
    case OtherV
    then show ?thesis using assms(2) by auto
  qed
  have "publishTrack v st = (PromiseSettled (Resolved p), st)"
    using p by (simp add: publishTrack_def)
  then show ?thesis using p m(1) shape by blast
qed

theorem publishTrack_idempotent_witness:
  "pA \<in> snd ` set (trackPublications s1)
   \<and> LocalTrackV tA = LocalTrackV (track pA)
   \<and> (\<exists>p. p \<in> snd ` set (trackPublications s1)
          \<and> publishTrack (LocalTrackV tA) s1 = (PromiseSettled (Resolved p), s1))"
proof -
  have h1: "pA \<in> snd ` set (trackPublications s1)"
    by code_simp
  have h2: "LocalTrackV tA = LocalTrackV (track pA)
      \<or> (\<exists>m. mediaStreamTrack (track pA) = Some m \<and> LocalTrackV tA = MediaStreamTrackV m)"
    by (simp add: pA_def)
  show ?thesis
    using h1 publishTrack_idempotent [OF h1 h2] by (auto simp: pA_def)
qed

section \<open>Attempts only move forward\<close>

lemma attempts_ext_refl: "attempts_ext st st"
  by (simp add: attempts_ext_def attempt_le_def)

lemma attempts_ext_same: "attempts st' = attempts st \<Longrightarrow> attempts_ext st st'"
  by (simp add: attempts_ext_def attempt_le_def)

lemma attempts_ext_trans:
  "attempts_ext st1 st2 \<Longrightarrow> attempts_ext st2 st3 \<Longrightarrow> attempts_ext st1 st3"
  unfolding attempts_ext_def attempt_le_def
  by (metis (no_types, lifting) le_trans less_le_trans)

lemma attempts_emit: "attempts (emit ev st) = attempts st"
  by (simp add: emit_def do_effect_def localTrackAdded_def localTrackRemoved_def
      signaling_addTrack_def signaling_removeTrack_def Let_def split: event.splits)

lemma attempts_removeTrack': "attempts (snd (removeTrack' t st)) = attempts st"
  by (simp add: removeTrack'_def attempts_emit split: option.splits)

lemma attempts_addTrack': "attempts (snd (addTrack' t st)) = attempts st"
  by (simp add: addTrack'_def attempts_emit)

lemma attempts_setTimeout: "attempts (setTimeout ev st) = attempts st"
  by (simp add: setTimeout_def do_effect_def)

lemma attempts_kind_update: "attempts (publishedKindTracks_update k f st) = attempts st"
  by (simp add: publishedKindTracks_update_def split: Kind.splits)

lemma attempts_ext_settle: "attempts_ext st (settle n v st)"
  by (auto simp: attempts_ext_def attempt_le_def settle_def nth_list_update)

lemma attempts_ext_removeListener_updated: "attempts_ext st (removeListener_updated n st)"
  by (auto simp: attempts_ext_def attempt_le_def removeListener_updated_def nth_list_update)

lemma attempts_ext_updated: "attempts_ext st (updated n st)"
proof -
  let ?lt = "a_track (attempts st ! n)"
  let ?st1 = "removeListener_updated n st"
  have e1: "attempts_ext st ?st1" by (rule attempts_ext_removeListener_updated)
  have step: "\<And>v (s::LocalParticipant). attempts s = attempts ?st1 \<Longrightarrow> attempts_ext st (settle n v s)"
  proof -
    fix v and s :: LocalParticipant assume "attempts s = attempts ?st1"
    then have "attempts_ext ?st1 s" by (rule attempts_ext_same)
    then show "attempts_ext st (settle n v s)"
      using e1 attempts_ext_settle attempts_ext_trans by blast
  qed
  show ?thesis
    unfolding updated_def Let_def
    by (auto split: option.splits prod.splits
        intro!: step attempts_ext_refl
        simp: attempts_setTimeout attempts_removeTrack' attempts_kind_update)
qed

lemma attempts_ext_foldl_updated: "attempts_ext st (foldl (\<lambda>s n. updated n s) st ns)"
proof (induction ns arbitrary: st)
  case Nil
  then show ?case by (simp add: attempts_ext_refl)
next
  case (Cons n ns)
  show ?case
    using attempts_ext_updated [of st n] Cons.IH [of "updated n st"] attempts_ext_trans
    by fastforce
qed

lemma attempts_ext_emit_updated: "attempts_ext st (emit_updated a st)"
  by (simp add: emit_updated_def attempts_ext_foldl_updated)

lemma attempts_ext_publishFailed: "attempts_ext st (publishFailed a err st)"
proof (cases "submitting (store st a)")
  case True
  let ?s = "st\<lparr>store := (store st)(a := (store st a)\<lparr>error := Some err\<rparr>)\<rparr>"
  have "attempts_ext st ?s" by (simp add: attempts_ext_same)
  then have "attempts_ext st (emit_updated a ?s)"
    using attempts_ext_emit_updated attempts_ext_trans by blast
  then show ?thesis using True by (simp add: publishFailed_def)
next
  case False
  then show ?thesis by (simp add: publishFailed_def attempts_ext_refl)
qed

lemma attempts_ext_setSid: "attempts_ext st (setSid a s st)"
proof (cases "submitting (store st a)")
  case True
  let ?s = "st\<lparr>store := (store st)(a := (store st a)\<lparr>sid := Some s\<rparr>)\<rparr>"
  have "attempts_ext st ?s" by (simp add: attempts_ext_same)
  then have "attempts_ext st (emit_updated a ?s)"
    using attempts_ext_emit_updated attempts_ext_trans by blast
  then show ?thesis using True by (simp add: setSid_def)
next
  case False
  then show ?thesis by (simp add: setSid_def attempts_ext_refl)
qed

lemma attempts_ext_getOrCreate:
  "attempts_ext st (snd (getOrCreateLocalTrackPublication t st))"
  by (auto simp: getOrCreateLocalTrackPublication_def attempts_ext_def attempt_le_def nth_append
      split: option.splits)

lemma attempts_asLocalTrack:
  "asLocalTrack v st = Return (t, st') \<Longrightarrow> attempts st' = attempts st"
  by (auto simp: asLocalTrack_def split: jsvalue.splits)

lemma attempts_ext_publishTrack: "attempts_ext st (snd (publishTrack v st))"
proof (cases "getTrackPublication (trackPublications st) v")
  case (Some p)
  then show ?thesis by (simp add: publishTrack_def attempts_ext_refl)
next
  case None
  show ?thesis
  proof (cases "asLocalTrack v st")
    case (Throw err)
    with None show ?thesis by (simp add: publishTrack_def attempts_ext_refl)
  next
    case (Return r)
    obtain t st0 where r: "r = (t, st0)" by (cases r)
    have st0: "attempts st0 = attempts st"
      using Return r attempts_asLocalTrack by blast
    obtain added st1 where a: "addTrack' t st0 = (added, st1)" by (cases "addTrack' t st0")
    have "attempts st1 = attempts st"
      using attempts_addTrack' [of t st0] a st0 by simp
    then have st1: "attempts_ext st st1" by (rule attempts_ext_same)
    have g: "\<And>lt. attempts_ext st (snd (getOrCreateLocalTrackPublication lt st1))"
      using st1 attempts_ext_getOrCreate attempts_ext_trans by blast
    show ?thesis
      using None Return r a st1 g
      by (simp add: publishTrack_def split: option.splits)
  qed
qed

lemma attempts_ext_publishTrack_map: "attempts_ext st (snd (publishTrack_map vs st))"
proof (induction vs arbitrary: st)
  case Nil
  then show ?case by (simp add: attempts_ext_refl)
next
  case (Cons v vs)
  obtain r st1 where p: "publishTrack v st = (r, st1)" by (cases "publishTrack v st")
  have st1: "attempts_ext st st1"
    using attempts_ext_publishTrack [of st v] p by simp
  obtain c st2 where m: "publishTrack_map vs st1 = (c, st2)" by (cases "publishTrack_map vs st1")
  have st2: "attempts_ext st st2"
    using Cons.IH [of st1] m st1 attempts_ext_trans by fastforce
  show ?case
    using p m st1 st2 by (simp split: publish_result.splits completion.splits)
qed

lemma attempts_ext_publishTracks: "attempts_ext st (snd (publishTracks vs st))"
  by (simp add: publishTracks_def attempts_ext_publishTrack_map attempts_ext_refl split: jsarg.splits)

lemma attempts_ext_unpublishTrack: "attempts_ext st (snd (unpublishTrack v st))"
proof -
  have k: "\<And>s. attempts_ext st s \<Longrightarrow> attempts_ext st (snd (removeTrack' t s))" for t
    using attempts_removeTrack' attempts_ext_same attempts_ext_trans by blast
  have d: "\<And>s k f x. attempts_ext st s \<Longrightarrow>
      attempts_ext st ((publishedKindTracks_update k f s)\<lparr>trackPublications := x\<rparr>)"
  proof -
    fix s k f x assume "attempts_ext st s"
    moreover have "attempts_ext s ((publishedKindTracks_update k f s)\<lparr>trackPublications := x\<rparr>)"
      by (simp add: attempts_ext_same attempts_kind_update)
    ultimately show "attempts_ext st ((publishedKindTracks_update k f s)\<lparr>trackPublications := x\<rparr>)"
      using attempts_ext_trans by blast
  qed
  show ?thesis
    unfolding unpublishTrack_def Let_def
    by (auto split: completion.splits option.splits
        intro!: k d attempts_ext_publishFailed attempts_ext_refl)
qed

lemma attempts_ext_unpublishTrack_reduce:
  "attempts_ext st (snd (unpublishTrack_reduce acc vs st))"
proof (induction vs arbitrary: acc st)
  case Nil
  then show ?case by (simp add: attempts_ext_refl)
next
  case (Cons v vs)
  obtain r st1 where u: "unpublishTrack v st = (r, st1)" by (cases "unpublishTrack v st")
  have st1: "attempts_ext st st1"
    using attempts_ext_unpublishTrack [of st v] u by simp
  have "\<And>acc'. attempts_ext st (snd (unpublishTrack_reduce acc' vs st1))"
    using Cons.IH st1 attempts_ext_trans by blast
  then show ?case
    using u st1 by (simp split: completion.splits option.splits)
qed

lemma attempts_ext_unpublishTracks: "attempts_ext st (snd (unpublishTracks vs st))"
  by (simp add: unpublishTracks_def attempts_ext_unpublishTrack_reduce attempts_ext_refl
      split: jsarg.splits)

lemma attempts_run_timer: "attempts (run_timer st) = attempts st"
  by (simp add: run_timer_def attempts_emit split: list.splits)

lemma attempts_removeListener: "attempts (removeListener h st) = attempts st"
  by (simp add: removeListener_def do_effect_def)

lemma attempts_foldl_stop: "attempts (foldl (\<lambda>s t. stop t s) st ts) = attempts st"
  by (induction ts arbitrary: st) (simp_all add: stop_def do_effect_def)

lemma attempts_stateChanged: "attempts (stateChanged state st) = attempts st"
  by (simp add: stateChanged_def Let_def attempts_foldl_stop attempts_removeListener)

lemma attempts_signaling_stateChanged: "attempts (signaling_stateChanged state st) = attempts st"
  by (simp add: signaling_stateChanged_def Let_def attempts_stateChanged)

lemma attempts_ext_step: "attempts_ext st (step a st)"
  by (cases a)
     (simp_all add: attempts_ext_publishTrack attempts_ext_publishTracks
       attempts_ext_unpublishTrack attempts_ext_unpublishTracks attempts_ext_setSid
       attempts_ext_publishFailed attempts_ext_same attempts_run_timer
       attempts_signaling_stateChanged)

lemma attempts_ext_run: "attempts_ext st (run as st)"
  unfolding run_def
proof (induction as arbitrary: st)
  case Nil
  then show ?case by (simp add: attempts_ext_refl)
next
  case (Cons a as)
  show ?case
    using attempts_ext_step [of st a] Cons.IH [of "step a st"] attempts_ext_trans by fastforce
qed

lemma settled_forever:
  assumes "n < length (attempts st)" and "a_promise (attempts st ! n) \<noteq> Pending"
    and "\<not> a_attached (attempts st ! n)"
  shows "a_promise (attempts (run as st) ! n) = a_promise (attempts st ! n)
         \<and> \<not> a_attached (attempts (run as st) ! n)"
  using attempts_ext_run [of st as] assms by (simp add: attempts_ext_def attempt_le_def)


section \<open>The branches of the resolution listener\<close>

lemma updated_error_eq:
  assumes "error (store st (a_signaling (attempts st ! n))) = Some err"
  shows "updated n st =
     settle n (Rejected err)
       (setTimeout (trackPublicationFailed err (a_track (attempts st ! n)))
         (snd (removeTrack' (a_track (attempts st ! n)) (removeListener_updated n st))))"
  using assms by (simp add: updated_def Let_def)

lemma tracks_removeListener_updated [simp]: "tracks (removeListener_updated n st) = tracks st"
  by (simp add: removeListener_updated_def)

lemma tracks_settle [simp]: "tracks (settle n v st) = tracks st"
  by (simp add: settle_def)

lemma tracks_setTimeout [simp]: "tracks (setTimeout ev st) = tracks st"
  by (simp add: setTimeout_def do_effect_def)

lemma tracks_emit [simp]: "tracks (emit ev st) = tracks st"
  by (simp add: emit_def do_effect_def localTrackAdded_def localTrackRemoved_def
      signaling_addTrack_def signaling_removeTrack_def Let_def split: event.splits)

lemma tracks_removeTrack':
  "map_of (tracks (snd (removeTrack' t st))) (track_id t) = None"
  by (simp add: removeTrack'_def delete_conv' split: option.splits)

lemma timers_emit_removed [simp]: "timers (emit (trackRemoved t) st) = timers st"
  by (simp add: emit_def do_effect_def localTrackRemoved_def signaling_removeTrack_def Let_def)

lemma timers_removeTrack' [simp]: "timers (snd (removeTrack' t st)) = timers st"
  by (simp add: removeTrack'_def split: option.splits)

lemma timers_settle [simp]: "timers (settle n v st) = timers st"
  by (simp add: settle_def)

lemma timers_removeListener_updated [simp]: "timers (removeListener_updated n st) = timers st"
  by (simp add: removeListener_updated_def)

lemma timers_setTimeout [simp]: "timers (setTimeout ev st) = timers st @ [ev]"
  by (simp add: setTimeout_def do_effect_def)

lemma effects_settle [simp]: "effects (settle n v st) = effects st"
  by (simp add: settle_def)

lemma effects_removeListener_updated [simp]: "effects (removeListener_updated n st) = effects st"
  by (simp add: removeListener_updated_def)

lemma effects_setTimeout [simp]: "effects (setTimeout ev st) = effects st @ [SetTimeout ev]"
  by (simp add: setTimeout_def do_effect_def)

lemma effects_emit [simp]: "effects (emit ev st) = effects st @ [Emit ev]"
  by (simp add: emit_def do_effect_def localTrackAdded_def localTrackRemoved_def
      signaling_addTrack_def signaling_removeTrack_def Let_def split: event.splits)

lemma effects_removeTrack':
  "effects (snd (removeTrack' t st)) =
     effects st @ (case map_of (tracks st) (track_id t) of None \<Rightarrow> [] | Some t' \<Rightarrow> [Emit (trackRemoved t')])"
  by (simp add: removeTrack'_def split: option.splits)

lemma attempts_updated_error:
  assumes "n < length (attempts st)"
    and "error (store st (a_signaling (attempts st ! n))) = Some err"
  shows "attempts (updated n st) =
     (attempts st)[n := (attempts st ! n)\<lparr>a_attached := False,
        a_promise := (if a_promise (attempts st ! n) = Pending then Rejected err
                      else a_promise (attempts st ! n))\<rparr>]"
proof -
  let ?lt = "a_track (attempts st ! n)"
  let ?st3 = "setTimeout (trackPublicationFailed err ?lt)
         (snd (removeTrack' ?lt (removeListener_updated n st)))"
  have a3: "attempts ?st3 = (attempts st)[n := (attempts st ! n)\<lparr>a_attached := False\<rparr>]"
    using assms(1) by (simp add: attempts_setTimeout attempts_removeTrack' removeListener_updated_def)
  have "attempts (settle n (Rejected err) ?st3) =
     (attempts st)[n := (attempts st ! n)\<lparr>a_attached := False,
        a_promise := (if a_promise (attempts st ! n) = Pending then Rejected err
                      else a_promise (attempts st ! n))\<rparr>]"
    using assms(1) by (simp add: settle_def a3)
  then show ?thesis
    using updated_error_eq [OF assms(2)] by simp
qed




lemma updated_sid_eq:
  assumes "error (store st (a_signaling (attempts st ! n))) = None"
    and "map_of (tracks st) (track_id (a_track (attempts st ! n))) \<noteq> None"
    and "sid (store st (a_signaling (attempts st ! n))) = Some s" and "s \<noteq> []"
    and "getTrackPublication (trackPublications st) (LocalTrackV (a_track (attempts st ! n))) = found"
  shows "updated n st =
     (let st1 = removeListener_updated n st;
          p = (case found of Some q \<Rightarrow> q
               | None \<Rightarrow> asLocalTrackPublication (a_track (attempts st ! n)) s);
          st2 = (case found of Some q \<Rightarrow> st1
                 | None \<Rightarrow> publishedKindTracks_update (kind (a_track (attempts st ! n)))
                     (AList.update s p) (st1\<lparr>trackPublications := AList.update s p (trackPublications st1)\<rparr>));
          st3 = (if signaling_state st = ''connected'' then setTimeout (trackPublished p) st2 else st2)
      in settle n (Resolved p) st3)"
proof -
  have tp: "trackPublications (removeListener_updated n st) = trackPublications st"
    by (simp add: removeListener_updated_def)
  have ss: "signaling_state (removeListener_updated n st) = signaling_state st"
    by (simp add: removeListener_updated_def)
  have sk: "\<And>k f x. signaling_state (publishedKindTracks_update k f x) = signaling_state x"
    by (simp add: publishedKindTracks_update_def split: Kind.splits)
  obtain t' where reg: "map_of (tracks st) (track_id (a_track (attempts st ! n))) = Some t'"
    using assms(2) by blast
  show ?thesis
    using assms(1,3,4,5) reg
    by (cases found) (simp_all add: updated_def Let_def tp ss sk)
qed

lemma timers_kind_update [simp]: "timers (publishedKindTracks_update k f st) = timers st"
  by (simp add: publishedKindTracks_update_def split: Kind.splits)

lemma effects_kind_update [simp]: "effects (publishedKindTracks_update k f st) = effects st"
  by (simp add: publishedKindTracks_update_def split: Kind.splits)

lemma attempts_settle_nth:
  "n < length (attempts st) \<Longrightarrow> a_promise (attempts st ! n) = Pending \<Longrightarrow>
   a_promise (attempts (settle n v st) ! n) = v"
  by (simp add: settle_def)

text \<open>
  C6. When the listener runs for a pending attempt whose record has no error and a
  non-empty identifier, and whose track is registered: the promise is resolved with the
  publication (the existing one, or a new one for the track and the identifier); if the
  signaling state is connected, exactly one trackPublished notification for it is queued
  as a timer; if it is not connected, nothing is queued and nothing is emitted.
\<close>

theorem updated_resolves_and_announces_when_connected:
  assumes "n < length (attempts st)"
    and "a_promise (attempts st ! n) = Pending"
    and "error (store st (a_signaling (attempts st ! n))) = None"
    and "map_of (tracks st) (track_id (a_track (attempts st ! n))) \<noteq> None"
    and "sid (store st (a_signaling (attempts st ! n))) = Some s" and "s \<noteq> []"
  shows "\<exists>p. p = (case getTrackPublication (trackPublications st)
                      (LocalTrackV (a_track (attempts st ! n))) of
                  Some q \<Rightarrow> q
                | None \<Rightarrow> asLocalTrackPublication (a_track (attempts st ! n)) s)
     \<and> a_promise (attempts (updated n st) ! n) = Resolved p
     \<and> (signaling_state st = ''connected'' \<longrightarrow>
          timers (updated n st) = timers st @ [trackPublished p]
          \<and> effects (updated n st) = effects st @ [SetTimeout (trackPublished p)])
     \<and> (signaling_state st \<noteq> ''connected'' \<longrightarrow>
          timers (updated n st) = timers st \<and> effects (updated n st) = effects st)"
proof -
  let ?lt = "a_track (attempts st ! n)"
  let ?found = "getTrackPublication (trackPublications st) (LocalTrackV ?lt)"
  let ?p = "case ?found of Some q \<Rightarrow> q | None \<Rightarrow> asLocalTrackPublication ?lt s"
  let ?st1 = "removeListener_updated n st"
  let ?st2 = "case ?found of Some q \<Rightarrow> ?st1
                 | None \<Rightarrow> publishedKindTracks_update (kind ?lt)
                     (AList.update s ?p) (?st1\<lparr>trackPublications := AList.update s ?p (trackPublications ?st1)\<rparr>)"
  let ?st3 = "if signaling_state st = ''connected'' then setTimeout (trackPublished ?p) ?st2 else ?st2"
  have eq: "updated n st = settle n (Resolved ?p) ?st3"
    using updated_sid_eq [OF assms(3) assms(4) assms(5) assms(6) refl] by (simp add: Let_def)
  have a2: "attempts ?st2 = attempts ?st1"
    by (cases ?found) (simp_all add: attempts_kind_update)
  have a3: "attempts ?st3 = (attempts st)[n := (attempts st ! n)\<lparr>a_attached := False\<rparr>]"
    using assms(1) a2 by (simp add: attempts_setTimeout removeListener_updated_def)
  have pr: "a_promise (attempts (updated n st) ! n) = Resolved ?p"
    unfolding eq using assms(1,2) a3 by (intro attempts_settle_nth) simp_all
  have t2: "timers ?st2 = timers st"
    by (cases ?found) simp_all
  have e2: "effects ?st2 = effects st"
    by (cases ?found) simp_all
  have c: "signaling_state st = ''connected'' \<longrightarrow>
          timers (updated n st) = timers st @ [trackPublished ?p]
          \<and> effects (updated n st) = effects st @ [SetTimeout (trackPublished ?p)]"
    unfolding eq using t2 e2 by simp
  have d: "signaling_state st \<noteq> ''connected'' \<longrightarrow>
          timers (updated n st) = timers st \<and> effects (updated n st) = effects st"
    unfolding eq using t2 e2 by simp
  show ?thesis using pr c d by blast
qed

theorem updated_resolves_and_announces_when_connected_witness:
  "0 < length (attempts s0_sid) \<and> a_promise (attempts s0_sid ! 0) = Pending
   \<and> signaling_state s0_sid = ''connected''
   \<and> a_promise (attempts (updated 0 s0_sid) ! 0) = Resolved pA
   \<and> timers (updated 0 s0_sid) = [trackPublished pA]
   \<and> 0 < length (attempts c0_sid) \<and> a_promise (attempts c0_sid ! 0) = Pending
   \<and> signaling_state c0_sid \<noteq> ''connected''
   \<and> a_promise (attempts (updated 0 c0_sid) ! 0) = Resolved pA
   \<and> timers (updated 0 c0_sid) = []"
proof -
  have h1: "0 < length (attempts s0_sid)" by code_simp
  have h2: "a_promise (attempts s0_sid ! 0) = Pending" by code_simp
  have h3: "error (store s0_sid (a_signaling (attempts s0_sid ! 0))) = None" by code_simp
  have h4: "map_of (tracks s0_sid) (track_id (a_track (attempts s0_sid ! 0))) \<noteq> None" by code_simp
  have h5: "sid (store s0_sid (a_signaling (attempts s0_sid ! 0))) = Some ''TR1''" by code_simp
  have h6: "''TR1'' \<noteq> []" by simp
  have k1: "(case getTrackPublication (trackPublications s0_sid)
                      (LocalTrackV (a_track (attempts s0_sid ! 0))) of
                  Some q \<Rightarrow> q
                | None \<Rightarrow> asLocalTrackPublication (a_track (attempts s0_sid ! 0)) ''TR1'') = pA"
    by code_simp
  have k2: "signaling_state s0_sid = ''connected''" by code_simp
  have k3: "timers s0_sid = []" by code_simp
  have g1: "0 < length (attempts c0_sid)" by code_simp
  have g2: "a_promise (attempts c0_sid ! 0) = Pending" by code_simp
  have g3: "error (store c0_sid (a_signaling (attempts c0_sid ! 0))) = None" by code_simp
  have g4: "map_of (tracks c0_sid) (track_id (a_track (attempts c0_sid ! 0))) \<noteq> None" by code_simp
  have g5: "sid (store c0_sid (a_signaling (attempts c0_sid ! 0))) = Some ''TR1''" by code_simp
  have j1: "(case getTrackPublication (trackPublications c0_sid)
                      (LocalTrackV (a_track (attempts c0_sid ! 0))) of
                  Some q \<Rightarrow> q
                | None \<Rightarrow> asLocalTrackPublication (a_track (attempts c0_sid ! 0)) ''TR1'') = pA"
    by code_simp
  have j2: "signaling_state c0_sid \<noteq> ''connected''" by code_simp
  have j3: "timers c0_sid = []" by code_simp
  show ?thesis
    using h1 h2 k1 k2 k3 g1 g2 j1 j2 j3
      updated_resolves_and_announces_when_connected [OF h1 h2 h3 h4 h5 h6]
      updated_resolves_and_announces_when_connected [OF g1 g2 g3 g4 g5 h6]
    by simp
qed

section \<open>Disconnect, invalid arguments, unpublishing without a signaling record\<close>

lemma remove_all_handlers:
  assumes "distinct hs"
  shows "remove1 localTrackRemoved_h (remove1 localTrackEnabled_h (remove1 localTrackDisabled_h
           (remove1 localTrackAdded_h (remove1 stateChanged_h hs)))) = []"
proof -
  let ?r = "removeAll localTrackRemoved_h (removeAll localTrackEnabled_h (removeAll localTrackDisabled_h
           (removeAll localTrackAdded_h (removeAll stateChanged_h hs))))"
  have n: "\<And>h. h \<notin> set ?r"
  proof -
    fix h show "h \<notin> set ?r" by (cases h) simp_all
  qed
  have "?r = []"
  proof (rule ccontr)
    assume ne: "?r \<noteq> []"
    have "hd ?r \<in> set ?r" using ne by (rule hd_in_set)
    then show False using n [of "hd ?r"] by (rule notE [rotated])
  qed
  then show ?thesis
    using assms by (simp add: distinct_remove1_removeAll distinct_removeAll)
qed

lemma emit_no_listeners: "listeners st = [] \<Longrightarrow> emit ev st = do_effect (Emit ev) st"
  by (simp add: emit_def do_effect_def Let_def split: event.splits)

lemma effects_foldl_stop: "effects (foldl (\<lambda>s t. stop t s) st ts) = effects st @ map Stop ts"
  by (induction ts arbitrary: st) (simp_all add: stop_def do_effect_def)

lemma listeners_foldl_stop: "listeners (foldl (\<lambda>s t. stop t s) st ts) = listeners st"
  by (induction ts arbitrary: st) (simp_all add: stop_def do_effect_def)

lemma signaling_state_foldl_stop:
  "signaling_state (foldl (\<lambda>s t. stop t s) st ts) = signaling_state st"
  by (induction ts arbitrary: st) (simp_all add: stop_def do_effect_def)

text \<open>The listeners this class attached, through the operations.\<close>

lemma listeners_emit: "listeners (emit ev st) = listeners st"
  by (simp add: emit_def do_effect_def localTrackAdded_def localTrackRemoved_def
      signaling_addTrack_def signaling_removeTrack_def Let_def split: event.splits)

lemma listeners_removeTrack': "listeners (snd (removeTrack' t st)) = listeners st"
  by (simp add: removeTrack'_def listeners_emit split: option.splits)

lemma listeners_addTrack': "listeners (snd (addTrack' t st)) = listeners st"
  by (simp add: addTrack'_def listeners_emit)

lemma listeners_settle: "listeners (settle n v st) = listeners st"
  by (simp add: settle_def)

lemma listeners_removeListener_updated: "listeners (removeListener_updated n st) = listeners st"
  by (simp add: removeListener_updated_def)

lemma listeners_setTimeout: "listeners (setTimeout ev st) = listeners st"
  by (simp add: setTimeout_def do_effect_def)

lemma listeners_kind_update: "listeners (publishedKindTracks_update k f st) = listeners st"
  by (simp add: publishedKindTracks_update_def split: Kind.splits)

lemma listeners_pubs_update: "listeners (st\<lparr>trackPublications := x\<rparr>) = listeners st"
  by simp

lemma listeners_updated: "listeners (updated n st) = listeners st"
  by (simp add: updated_def Let_def listeners_settle listeners_setTimeout listeners_removeTrack'
      listeners_removeListener_updated listeners_kind_update listeners_pubs_update
      split: option.splits prod.splits)

lemma listeners_foldl_updated: "listeners (foldl (\<lambda>s n. updated n s) st ns) = listeners st"
  by (induction ns arbitrary: st) (simp_all add: listeners_updated)

lemma listeners_emit_updated: "listeners (emit_updated a st) = listeners st"
  by (simp add: emit_updated_def listeners_foldl_updated)

lemma listeners_store_update: "listeners (st\<lparr>store := x\<rparr>) = listeners st"
  by simp

lemma listeners_publishFailed: "listeners (publishFailed a err st) = listeners st"
  by (simp add: publishFailed_def listeners_emit_updated listeners_store_update)

lemma listeners_setSid: "listeners (setSid a s st) = listeners st"
  by (simp add: setSid_def listeners_emit_updated listeners_store_update)

lemma listeners_getOrCreate:
  "listeners (snd (getOrCreateLocalTrackPublication t st)) = listeners st"
  by (simp add: getOrCreateLocalTrackPublication_def split: option.splits)

lemma listeners_asLocalTrack:
  "asLocalTrack v st = Return (t, st') \<Longrightarrow> listeners st' = listeners st"
  by (auto simp: asLocalTrack_def split: jsvalue.splits)

lemma listeners_publishTrack: "listeners (snd (publishTrack v st)) = listeners st"
proof (cases "getTrackPublication (trackPublications st) v")
  case (Some p)
  then show ?thesis by (simp add: publishTrack_def)
next
  case None
  show ?thesis
  proof (cases "asLocalTrack v st")
    case (Throw err)
    with None show ?thesis by (simp add: publishTrack_def)
  next
    case (Return r)
    obtain t st0 where r: "r = (t, st0)" by (cases r)
    have st0: "listeners st0 = listeners st"
      using Return r listeners_asLocalTrack by blast
    obtain added st1 where a: "addTrack' t st0 = (added, st1)" by (cases "addTrack' t st0")
    have st1: "listeners st1 = listeners st"
      using listeners_addTrack' [of t st0] a st0 by simp
    show ?thesis
      using None Return r a st1
      by (simp add: publishTrack_def listeners_getOrCreate split: option.splits)
  qed
qed

lemma listeners_publishTrack_map: "listeners (snd (publishTrack_map vs st)) = listeners st"
proof (induction vs arbitrary: st)
  case Nil
  then show ?case by simp
next
  case (Cons v vs)
  obtain r st1 where p: "publishTrack v st = (r, st1)" by (cases "publishTrack v st")
  have st1: "listeners st1 = listeners st"
    using listeners_publishTrack [of v st] p by simp
  obtain c st2 where m: "publishTrack_map vs st1 = (c, st2)" by (cases "publishTrack_map vs st1")
  have st2: "listeners st2 = listeners st"
    using Cons.IH [of st1] m st1 by simp
  show ?case
    using p m st1 st2 by (simp split: publish_result.splits completion.splits)
qed

lemma listeners_publishTracks: "listeners (snd (publishTracks vs st)) = listeners st"
  by (simp add: publishTracks_def listeners_publishTrack_map split: jsarg.splits)

lemma listeners_unpublishTrack: "listeners (snd (unpublishTrack v st)) = listeners st"
  by (simp add: unpublishTrack_def Let_def listeners_removeTrack' listeners_publishFailed
      listeners_kind_update listeners_pubs_update split: completion.splits option.splits)

lemma listeners_unpublishTrack_reduce:
  "listeners (snd (unpublishTrack_reduce acc vs st)) = listeners st"
proof (induction vs arbitrary: acc st)
  case Nil
  then show ?case by simp
next
  case (Cons v vs)
  obtain r st1 where u: "unpublishTrack v st = (r, st1)" by (cases "unpublishTrack v st")
  have st1: "listeners st1 = listeners st"
    using listeners_unpublishTrack [of v st] u by simp
  show ?case
    using u st1 Cons.IH by (simp split: completion.splits option.splits)
qed

lemma listeners_unpublishTracks: "listeners (snd (unpublishTracks vs st)) = listeners st"
  by (simp add: unpublishTracks_def listeners_unpublishTrack_reduce split: jsarg.splits)

lemma listeners_run_timer: "listeners (run_timer st) = listeners st"
  by (simp add: run_timer_def listeners_emit split: list.splits)


lemma distinct_listeners_signaling_stateChanged:
  "distinct (listeners st) \<Longrightarrow> distinct (listeners (signaling_stateChanged state st))"
  by (simp add: signaling_stateChanged_def stateChanged_def Let_def listeners_foldl_stop
      removeListener_def do_effect_def)

lemma distinct_listeners_step:
  "distinct (listeners st) \<Longrightarrow> distinct (listeners (step a st))"
  by (cases a)
     (simp_all add: listeners_publishTrack listeners_publishTracks listeners_unpublishTrack
       listeners_unpublishTracks listeners_setSid listeners_publishFailed listeners_run_timer
       distinct_listeners_signaling_stateChanged)

lemma distinct_listeners_run:
  "distinct (listeners st) \<Longrightarrow> distinct (listeners (run as st))"
  unfolding run_def
  by (induction as arbitrary: st) (simp_all add: distinct_listeners_step)

lemma listeners_handle_fold:
  "listeners (foldl (\<lambda>s t. snd (getOrCreateLocalTrackPublication t (localTrackAdded t s))) st ts)
     = listeners st"
proof (induction ts arbitrary: st)
  case Nil
  then show ?case by simp
next
  case (Cons t ts)
  have "listeners (localTrackAdded t st) = listeners st"
    by (simp add: localTrackAdded_def signaling_addTrack_def)
  then show ?case
    using Cons.IH by (simp add: listeners_getOrCreate)
qed

lemma distinct_listeners_new:
  "distinct (listeners (LocalParticipant_new state localTracks options))"
  by (simp add: LocalParticipant_new_def handleTrackSignalingEvents_def Let_def
      listeners_handle_fold)

lemma stateChanged_teardown:
  assumes "stateChanged_h \<in> set (listeners st)" and "distinct (listeners st)"
  shows "\<exists>st5. listeners st5 = []
      \<and> effects st5 = effects st @ map RemoveListener
            [stateChanged_h, localTrackAdded_h, localTrackDisabled_h, localTrackEnabled_h,
             localTrackRemoved_h]
      \<and> signaling_stateChanged ''disconnected'' st = foldl (\<lambda>s t. stop t s) st5 (tracksToStop st)
      \<and> effects (signaling_stateChanged ''disconnected'' st)
          = effects st5 @ map Stop (tracksToStop st)
      \<and> listeners (signaling_stateChanged ''disconnected'' st) = []
      \<and> (\<forall>t. Stop t \<in> set (drop (length (effects st))
                              (effects (signaling_stateChanged ''disconnected'' st)))
              \<longleftrightarrow> t \<in> set (tracksToStop st))
      \<and> (\<forall>ev. emit ev st5 = do_effect (Emit ev) st5)
      \<and> signaling_stateChanged ''disconnected'' (signaling_stateChanged ''disconnected'' st)
          = signaling_stateChanged ''disconnected'' st"
proof -
  let ?s = "st\<lparr>signaling_state := ''disconnected''\<rparr>"
  let ?st5 = "removeListener localTrackRemoved_h (removeListener localTrackEnabled_h
      (removeListener localTrackDisabled_h (removeListener localTrackAdded_h
      (removeListener stateChanged_h ?s))))"
  let ?res = "signaling_stateChanged ''disconnected'' st"
  have l5: "listeners ?st5 = []"
    using remove_all_handlers [OF assms(2)] by (simp add: removeListener_def do_effect_def)
  have e5: "effects ?st5 = effects st @ map RemoveListener
            [stateChanged_h, localTrackAdded_h, localTrackDisabled_h, localTrackEnabled_h,
             localTrackRemoved_h]"
    by (simp add: removeListener_def do_effect_def)
  have t5: "tracksToStop ?st5 = tracksToStop st"
    by (simp add: removeListener_def do_effect_def)
  have res: "?res = foldl (\<lambda>s t. stop t s) ?st5 (tracksToStop st)"
    using assms(1) t5 by (simp add: signaling_stateChanged_def stateChanged_def Let_def)
  have eres: "effects ?res = effects ?st5 @ map Stop (tracksToStop st)"
    by (simp only: res effects_foldl_stop)
  have lres: "listeners ?res = []"
    by (simp only: res listeners_foldl_stop l5)
  have stops: "\<forall>t. Stop t \<in> set (drop (length (effects st)) (effects ?res))
              \<longleftrightarrow> t \<in> set (tracksToStop st)"
    by (auto simp: eres e5)
  have em: "\<forall>ev. emit ev ?st5 = do_effect (Emit ev) ?st5"
    using l5 emit_no_listeners by blast
  have sres: "signaling_state ?res = ''disconnected''"
    by (simp only: res signaling_state_foldl_stop) (simp add: removeListener_def do_effect_def)
  have "?res\<lparr>signaling_state := ''disconnected''\<rparr> = ?res"
    using sres by simp
  then have idem: "signaling_stateChanged ''disconnected'' ?res = ?res"
    using lres by (simp add: signaling_stateChanged_def Let_def)
  show ?thesis
    using l5 e5 res eres lres stops em idem by blast
qed


text \<open>
  C7, as amended. In every state reached from the constructor in which the
  \<open>stateChanged\<close> listener is still attached, when the signaling channel emits
  \<open>stateChanged\<close> with the state disconnected: the five listeners that
  \<open>_handleTrackSignalingEvents\<close> attached are removed first, the own \<open>stateChanged\<close>
  listener before the others, and only then \<open>stop\<close> is called, on exactly the tracks of
  the auto-stop set in its order; in the state in which the stops happen none of these
  five listeners is attached, so an emission (a \<open>trackRemoved\<close>, say) reaches no handler
  of them; a second disconnect changes nothing. The \<open>'updated'\<close> listeners of the publish
  attempts are not removed: every attempt is as it was before the disconnect.
\<close>

theorem disconnect_removes_listeners_then_stops:
  fixes as state localTracks options
  defines "st \<equiv> run as (LocalParticipant_new state localTracks options)"
  assumes "stateChanged_h \<in> set (listeners st)"
  shows "\<exists>st5. listeners st5 = []
      \<and> effects st5 = effects st @ map RemoveListener
            [stateChanged_h, localTrackAdded_h, localTrackDisabled_h, localTrackEnabled_h,
             localTrackRemoved_h]
      \<and> signaling_stateChanged ''disconnected'' st = foldl (\<lambda>s t. stop t s) st5 (tracksToStop st)
      \<and> effects (signaling_stateChanged ''disconnected'' st)
          = effects st5 @ map Stop (tracksToStop st)
      \<and> listeners (signaling_stateChanged ''disconnected'' st) = []
      \<and> (\<forall>t. Stop t \<in> set (drop (length (effects st))
                              (effects (signaling_stateChanged ''disconnected'' st)))
              \<longleftrightarrow> t \<in> set (tracksToStop st))
      \<and> (\<forall>ev. emit ev st5 = do_effect (Emit ev) st5)
      \<and> signaling_stateChanged ''disconnected'' (signaling_stateChanged ''disconnected'' st)
          = signaling_stateChanged ''disconnected'' st
      \<and> attempts (signaling_stateChanged ''disconnected'' st) = attempts st"
proof -
  have "distinct (listeners st)"
    unfolding st_def by (rule distinct_listeners_run [OF distinct_listeners_new])
  then obtain st5 where "listeners st5 = []
      \<and> effects st5 = effects st @ map RemoveListener
            [stateChanged_h, localTrackAdded_h, localTrackDisabled_h, localTrackEnabled_h,
             localTrackRemoved_h]
      \<and> signaling_stateChanged ''disconnected'' st = foldl (\<lambda>s t. stop t s) st5 (tracksToStop st)
      \<and> effects (signaling_stateChanged ''disconnected'' st)
          = effects st5 @ map Stop (tracksToStop st)
      \<and> listeners (signaling_stateChanged ''disconnected'' st) = []
      \<and> (\<forall>t. Stop t \<in> set (drop (length (effects st))
                              (effects (signaling_stateChanged ''disconnected'' st)))
              \<longleftrightarrow> t \<in> set (tracksToStop st))
      \<and> (\<forall>ev. emit ev st5 = do_effect (Emit ev) st5)
      \<and> signaling_stateChanged ''disconnected'' (signaling_stateChanged ''disconnected'' st)
          = signaling_stateChanged ''disconnected'' st"
    using assms(2) stateChanged_teardown [of st] by blast
  moreover have "attempts (signaling_stateChanged ''disconnected'' st) = attempts st"
    by (rule attempts_signaling_stateChanged)
  ultimately show ?thesis by blast
qed

theorem disconnect_removes_listeners_then_stops_witness:
  "stateChanged_h \<in> set (listeners (run [PublishTrack (LocalTrackV tB)]
       (LocalParticipant_new ''connected'' [tA, tD] opts_stop)))
   \<and> effects (signaling_stateChanged ''disconnected'' (run [PublishTrack (LocalTrackV tB)]
       (LocalParticipant_new ''connected'' [tA, tD] opts_stop)))
       = Emit (trackAdded tB) # map RemoveListener
            [stateChanged_h, localTrackAdded_h, localTrackDisabled_h, localTrackEnabled_h,
             localTrackRemoved_h] @ [Stop tA]
   \<and> listeners (signaling_stateChanged ''disconnected'' (run [PublishTrack (LocalTrackV tB)]
       (LocalParticipant_new ''connected'' [tA, tD] opts_stop))) = []
   \<and> map a_attached (attempts (signaling_stateChanged ''disconnected''
       (run [PublishTrack (LocalTrackV tB)]
         (LocalParticipant_new ''connected'' [tA, tD] opts_stop)))) = [True, True, True]"
proof -
  let ?st = "run [PublishTrack (LocalTrackV tB)]
       (LocalParticipant_new ''connected'' [tA, tD] opts_stop)"
  have h1: "stateChanged_h \<in> set (listeners ?st)" by code_simp
  have k1: "effects ?st = [Emit (trackAdded tB)]" by code_simp
  have k2: "tracksToStop ?st = [tA]" by code_simp
  have k3: "map a_attached (attempts ?st) = [True, True, True]" by code_simp
  show ?thesis
    using h1 k1 k2 k3 disconnect_removes_listeners_then_stops [OF h1] by auto
qed

text \<open>
  C7 as stated fails: after the disconnect of the participant \<open>s0\<close> the five listeners are
  gone, but the \<open>'updated'\<close> listeners of the two pending publish attempts are still
  attached to their signaling records and still act. When the record of \<open>tA\<close> then
  reports an error, the listener removes the track, emits \<open>trackRemoved\<close> and schedules
  trackPublicationFailed; when the record of \<open>tD\<close> receives an identifier, the listener
  creates a publication.
\<close>

theorem disconnect_keeps_updated_listeners:
  "stateChanged_h \<in> set (listeners s0)
   \<and> listeners s_off = []
   \<and> map a_attached (attempts s_off) = [True, True]
   \<and> updated_listeners 0 s_off = [0] \<and> updated_listeners 1 s_off = [1]
   \<and> effects (run [PublishFailed 0 (SignalingError ''rejected'')] s_off)
       = map RemoveListener
            [stateChanged_h, localTrackAdded_h, localTrackDisabled_h, localTrackEnabled_h,
             localTrackRemoved_h]
         @ [Stop tA, Emit (trackRemoved tA),
            SetTimeout (trackPublicationFailed (SignalingError ''rejected'') tA)]
   \<and> trackPublications (run [SetSid 1 ''TR2''] s_off)
       = [(''TR2'', \<lparr>track = tD, trackSid = ''TR2''\<rparr>)]"
  by code_simp

lemma getOrCreate_not_Thrown:
  "fst (getOrCreateLocalTrackPublication t st) \<noteq> Thrown e"
  by (simp add: getOrCreateLocalTrackPublication_def split: option.splits)

lemma publishTrack_not_Thrown: "fst (publishTrack v st) \<noteq> Thrown e"
proof (cases "getTrackPublication (trackPublications st) v")
  case (Some p)
  then show ?thesis by (simp add: publishTrack_def)
next
  case None
  show ?thesis
  proof (cases "asLocalTrack v st")
    case (Throw err)
    with None show ?thesis by (simp add: publishTrack_def)
  next
    case (Return r)
    obtain t st0 where r: "r = (t, st0)" by (cases r)
    show ?thesis
    proof (cases "map_of (tracks st0) (track_id t)")
      case None' : None
      then show ?thesis
        using None Return r by (simp add: publishTrack_def addTrack'_def getOrCreate_not_Thrown)
    next
      case (Some t')
      then show ?thesis
        using None Return r by (simp add: publishTrack_def addTrack'_def getOrCreate_not_Thrown)
    qed
  qed
qed

lemma publishTrack_map_not_Throw: "fst (publishTrack_map vs st) \<noteq> Throw e"
proof (induction vs arbitrary: st e)
  case Nil
  then show ?case by simp
next
  case (Cons v vs)
  obtain r st1 where p: "publishTrack v st = (r, st1)" by (cases "publishTrack v st")
  have nt: "\<And>x. r \<noteq> Thrown x" using publishTrack_not_Thrown [of v st] p by simp
  obtain c st2 where m: "publishTrack_map vs st1 = (c, st2)" by (cases "publishTrack_map vs st1")
  have nc: "\<And>x. c \<noteq> Throw x" using Cons.IH [of st1] m by simp
  show ?case
    using p m nt nc by (cases r; cases c) simp_all
qed

text \<open>
  C9, as amended. \<open>publishTracks\<close> and \<open>unpublishTracks\<close> throw the invalid-type error for
  an argument that is not an array, and \<open>unpublishTrack\<close> throws it for an argument that
  is not an accepted track type, each before any state change. \<open>publishTrack\<close> never
  throws: for an argument that is not an accepted track type (and that matches no
  publication) it returns a promise rejected with the invalid-type error, so that
  \<open>publishTracks\<close> of an array never throws either.
\<close>

theorem invalid_arguments:
  "publishTracks NotArray st = (Throw invalid_tracks, st)
   \<and> unpublishTracks NotArray st = (Throw invalid_tracks, st)
   \<and> (\<not> accepted v \<longrightarrow> unpublishTrack v st = (Throw invalid_track, st))
   \<and> (\<not> accepted v \<longrightarrow> getTrackPublication (trackPublications st) v = None \<longrightarrow>
        publishTrack v st = (PromiseSettled (Rejected invalid_track), st))
   \<and> (\<forall>e. fst (publishTrack v st) \<noteq> Thrown e)
   \<and> (\<forall>e. fst (publishTracks (Array vs) st) \<noteq> Throw e)"
proof -
  have a: "\<not> accepted v \<longrightarrow> unpublishTrack v st = (Throw invalid_track, st)"
    by (simp add: unpublishTrack_def validateLocalTrack_def)
  have b: "\<not> accepted v \<longrightarrow> getTrackPublication (trackPublications st) v = None \<longrightarrow>
        publishTrack v st = (PromiseSettled (Rejected invalid_track), st)"
    by (cases v) (simp_all add: publishTrack_def asLocalTrack_def accepted_def)
  show ?thesis
    using a b publishTrack_not_Thrown publishTrack_map_not_Throw
    by (simp add: publishTracks_def unpublishTracks_def)
qed

theorem invalid_arguments_witness:
  "\<not> accepted OtherV \<and> getTrackPublication (trackPublications s0) OtherV = None
   \<and> unpublishTrack OtherV s0 = (Throw invalid_track, s0)
   \<and> publishTrack OtherV s0 = (PromiseSettled (Rejected invalid_track), s0)"
proof -
  have h1: "\<not> accepted OtherV" by (simp add: accepted_def)
  have h2: "getTrackPublication (trackPublications s0) OtherV = None" by code_simp
  show ?thesis
    using h1 h2 invalid_arguments [of s0 OtherV] by simp
qed

text \<open>
  C9 as stated fails: for a value that is not an accepted track type, \<open>publishTrack\<close>
  and \<open>publishTracks\<close> do not throw but return rejected promises.
\<close>

theorem publishTrack_invalid_is_rejection:
  "\<not> accepted OtherV
   \<and> fst (publishTrack OtherV s0) = PromiseSettled (Rejected invalid_track)
   \<and> fst (publishTrack OtherV s0) \<noteq> Thrown invalid_track
   \<and> fst (publishTracks (Array [OtherV]) s0) = Return [PromiseSettled (Rejected invalid_track)]"
  by code_simp

lemma unpublishTrack_no_record:
  assumes "id_of v = Some i" and "map_of (tracks st) i = Some t"
    and "map_of (signaling_tracks st) (track_id t) = None"
  shows "unpublishTrack v st = (Throw (TypeError ''trackSignaling is undefined''), st)"
proof -
  have "accepted v"
    using assms(1) by (cases v) (simp_all add: id_of_def accepted_def)
  then show ?thesis
    using assms by (simp add: unpublishTrack_def validateLocalTrack_def)
qed

text \<open>
  C8 at a failing input. After a disconnect, \<open>publishTrack(tB)\<close> registers the track and
  returns a rejected promise, because no signaling record exists for it; the track is
  then in the track registry, and \<open>unpublishTrack(tB)\<close> throws a TypeError at
  \<open>trackSignaling.publishFailed\<close> instead of removing the track and returning null.
\<close>

theorem unpublishTrack_registered_track_throws:
  "map_of (tracks s_down) (track_id tB) = Some tB
   \<and> fst (publishTrack (LocalTrackV tB) (run [StateChanged ''disconnected''] s0))
       = PromiseSettled (Rejected (CannotBePublished tB))
   \<and> unpublishTrack (LocalTrackV tB) s_down
       = (Throw (TypeError ''trackSignaling is undefined''), s_down)"
proof -
  have h1: "id_of (LocalTrackV tB) = Some (track_id tB)" by (simp add: id_of_def)
  have h2: "map_of (tracks s_down) (track_id tB) = Some tB" by code_simp
  have h3: "map_of (signaling_tracks s_down) (track_id tB) = None" by code_simp
  have h4: "fst (publishTrack (LocalTrackV tB) (run [StateChanged ''disconnected''] s0))
       = PromiseSettled (Rejected (CannotBePublished tB))" by code_simp
  show ?thesis
    using h2 h4 unpublishTrack_no_record [OF h1 h2 h3] by simp
qed

section \<open>Unpublishing while a publish is pending\<close>

lemma store_emit_removed [simp]: "store (emit (trackRemoved t) st) = store st"
  by (simp add: emit_def do_effect_def localTrackRemoved_def signaling_removeTrack_def Let_def)

lemma store_removeTrack' [simp]: "store (snd (removeTrack' t st)) = store st"
  by (simp add: removeTrack'_def split: option.splits)

lemma store_settle [simp]: "store (settle n v st) = store st"
  by (simp add: settle_def)

lemma store_removeListener_updated [simp]: "store (removeListener_updated n st) = store st"
  by (simp add: removeListener_updated_def)

lemma store_setTimeout [simp]: "store (setTimeout ev st) = store st"
  by (simp add: setTimeout_def do_effect_def)

lemma store_kind_update [simp]: "store (publishedKindTracks_update k f st) = store st"
  by (simp add: publishedKindTracks_update_def split: Kind.splits)

lemma store_updated [simp]: "store (updated n st) = store st"
  by (simp add: updated_def Let_def split: option.splits prod.splits)

lemma pubs_view_emit_removed [simp]: "pubs_view (emit (trackRemoved t) st) = pubs_view st"
  by (simp add: pubs_view_def emit_def do_effect_def localTrackRemoved_def
      signaling_removeTrack_def Let_def)

lemma pubs_view_removeTrack' [simp]: "pubs_view (snd (removeTrack' t st)) = pubs_view st"
  by (simp add: removeTrack'_def split: option.splits) (simp add: pubs_view_def)

lemma pubs_view_settle [simp]: "pubs_view (settle n v st) = pubs_view st"
  by (simp add: settle_def pubs_view_def)

lemma pubs_view_removeListener_updated [simp]:
  "pubs_view (removeListener_updated n st) = pubs_view st"
  by (simp add: removeListener_updated_def pubs_view_def)

lemma pubs_view_setTimeout [simp]: "pubs_view (setTimeout ev st) = pubs_view st"
  by (simp add: setTimeout_def do_effect_def pubs_view_def)

lemma pubs_view_updated_error:
  "error (store st (a_signaling (attempts st ! n))) = Some err \<Longrightarrow>
   pubs_view (updated n st) = pubs_view st"
  by (simp add: updated_error_eq)

lemma foldl_updated_error:
  assumes "error (store s a) = Some err"
    and "\<forall>k \<in> set ns. k < length (attempts s) \<and> a_signaling (attempts s ! k) = a"
    and "distinct ns"
  shows "store (foldl (\<lambda>s n. updated n s) s ns) = store s
     \<and> length (attempts (foldl (\<lambda>s n. updated n s) s ns)) = length (attempts s)
     \<and> (\<forall>n < length (attempts s).
           attempts (foldl (\<lambda>s n. updated n s) s ns) ! n =
             (if n \<in> set ns then failed_attempt err (attempts s ! n) else attempts s ! n))
     \<and> timers (foldl (\<lambda>s n. updated n s) s ns) =
         timers s @ map (\<lambda>k. trackPublicationFailed err (a_track (attempts s ! k))) ns
     \<and> pubs_view (foldl (\<lambda>s n. updated n s) s ns) = pubs_view s"
  using assms
proof (induction ns arbitrary: s)
  case Nil
  then show ?case by simp
next
  case (Cons k ns)
  let ?s' = "updated k s"
  have k: "k < length (attempts s)" "a_signaling (attempts s ! k) = a"
    using Cons.prems(2) by simp_all
  have ek: "error (store s (a_signaling (attempts s ! k))) = Some err"
    using Cons.prems(1) k(2) by simp
  have at: "attempts ?s' = (attempts s)[k := failed_attempt err (attempts s ! k)]"
    using attempts_updated_error [OF k(1) ek] by (simp add: failed_attempt_def)
  have ti: "timers ?s' = timers s @ [trackPublicationFailed err (a_track (attempts s ! k))]"
    by (simp add: updated_error_eq [OF ek])
  have pv: "pubs_view ?s' = pubs_view s"
    by (rule pubs_view_updated_error [OF ek])
  have e': "error (store ?s' a) = Some err"
    using Cons.prems(1) by simp
  have kn: "k \<notin> set ns" and dn: "distinct ns"
    using Cons.prems(3) by simp_all
  have same: "\<And>m. m \<noteq> k \<Longrightarrow> attempts ?s' ! m = attempts s ! m"
    by (simp add: at)
  have all': "\<forall>m \<in> set ns. m < length (attempts ?s') \<and> a_signaling (attempts ?s' ! m) = a"
  proof
    fix m assume m: "m \<in> set ns"
    then have "m \<noteq> k" using kn by blast
    then show "m < length (attempts ?s') \<and> a_signaling (attempts ?s' ! m) = a"
      using Cons.prems(2) m by (simp add: at)
  qed
  note IH = Cons.IH [OF e' all' dn]
  have tr: "map (\<lambda>m. trackPublicationFailed err (a_track (attempts ?s' ! m))) ns
          = map (\<lambda>m. trackPublicationFailed err (a_track (attempts s ! m))) ns"
  proof (rule map_cong [OF refl])
    fix m assume "m \<in> set ns"
    then have "m \<noteq> k" using kn by blast
    then show "trackPublicationFailed err (a_track (attempts ?s' ! m))
        = trackPublicationFailed err (a_track (attempts s ! m))"
      by (simp add: same)
  qed
  have nth: "\<forall>n < length (attempts s).
           attempts (foldl (\<lambda>s n. updated n s) ?s' ns) ! n =
             (if n \<in> set (k # ns) then failed_attempt err (attempts s ! n) else attempts s ! n)"
  proof (intro allI impI)
    fix n assume n: "n < length (attempts s)"
    then have n': "n < length (attempts ?s')" by (simp add: at)
    have "attempts (foldl (\<lambda>s n. updated n s) ?s' ns) ! n
        = (if n \<in> set ns then failed_attempt err (attempts ?s' ! n) else attempts ?s' ! n)"
      using IH n' by blast
    then show "attempts (foldl (\<lambda>s n. updated n s) ?s' ns) ! n =
             (if n \<in> set (k # ns) then failed_attempt err (attempts s ! n) else attempts s ! n)"
      using kn n by (cases "n = k") (auto simp: at same)
  qed
  show ?case
    using IH nth ti tr pv by (simp add: at)
qed

lemma updated_listeners_props:
  "distinct (updated_listeners a st)
   \<and> (\<forall>k \<in> set (updated_listeners a st).
         k < length (attempts st) \<and> a_signaling (attempts st ! k) = a)"
  by (simp add: updated_listeners_def)

lemma updated_listeners_mem:
  "n < length (attempts st) \<Longrightarrow> a_signaling (attempts st ! n) = a \<Longrightarrow> a_attached (attempts st ! n)
   \<Longrightarrow> n \<in> set (updated_listeners a st)"
  by (simp add: updated_listeners_def)

lemma publishFailed_rejects:
  assumes "n < length (attempts st)" and "a_attached (attempts st ! n)"
    and "a_promise (attempts st ! n) = Pending"
    and "submitting (store st (a_signaling (attempts st ! n)))"
  shows "attempts (publishFailed (a_signaling (attempts st ! n)) err st) ! n
           = (attempts st ! n)\<lparr>a_attached := False, a_promise := Rejected err\<rparr>
     \<and> length (attempts (publishFailed (a_signaling (attempts st ! n)) err st)) = length (attempts st)
     \<and> trackPublicationFailed err (a_track (attempts st ! n))
         \<in> set (timers (publishFailed (a_signaling (attempts st ! n)) err st))
     \<and> pubs_view (publishFailed (a_signaling (attempts st ! n)) err st) = pubs_view st"
proof -
  let ?a = "a_signaling (attempts st ! n)"
  let ?s = "st\<lparr>store := (store st)(?a := (store st ?a)\<lparr>error := Some err\<rparr>)\<rparr>"
  let ?ns = "updated_listeners ?a ?s"
  have e: "error (store ?s ?a) = Some err" by simp
  have p: "distinct ?ns"
    "\<forall>k \<in> set ?ns. k < length (attempts ?s) \<and> a_signaling (attempts ?s ! k) = ?a"
    using updated_listeners_props [of ?a ?s] by blast+
  have m: "n \<in> set ?ns"
    using assms(1,2) by (intro updated_listeners_mem) simp_all
  note F = foldl_updated_error [OF e p(2) p(1)]
  have n': "n < length (attempts ?s)" using assms(1) by simp
  have a: "attempts (foldl (\<lambda>s n. updated n s) ?s ?ns) ! n = failed_attempt err (attempts ?s ! n)"
    using F n' m by (simp del: foldl_conv_fold)
  have t: "trackPublicationFailed err (a_track (attempts st ! n))
         \<in> set (timers (foldl (\<lambda>s n. updated n s) ?s ?ns))"
  proof -
    have "timers (foldl (\<lambda>s n. updated n s) ?s ?ns) =
         timers ?s @ map (\<lambda>k. trackPublicationFailed err (a_track (attempts ?s ! k))) ?ns"
      using F by blast
    then show ?thesis using m by auto
  qed
  have l: "length (attempts (foldl (\<lambda>s n. updated n s) ?s ?ns)) = length (attempts st)"
    using F by simp
  have pv: "pubs_view (foldl (\<lambda>s n. updated n s) ?s ?ns) = pubs_view st"
  proof -
    have "pubs_view (foldl (\<lambda>s n. updated n s) ?s ?ns) = pubs_view ?s" using F by blast
    then show ?thesis by (simp add: pubs_view_def)
  qed
  show ?thesis
    using a t l pv assms(3,4) by (simp add: publishFailed_def emit_updated_def failed_attempt_def)
qed


lemma id_of_accepted: "id_of v = Some i \<Longrightarrow> accepted v"
  by (cases v) (simp_all add: id_of_def accepted_def)

lemma unpublishTrack_eq:
  assumes "id_of v = Some i" and "map_of (tracks st) i = Some lt"
    and "map_of (signaling_tracks st) (track_id lt) = Some a"
  shows "unpublishTrack v st =
     (let st1 = publishFailed a (WasUnpublished lt) st;
          found = getTrackPublication (trackPublications st1) (LocalTrackV lt);
          st2 = (case found of
                   None \<Rightarrow> st1
                 | Some p \<Rightarrow>
                     (let st' = publishedKindTracks_update (kind lt) (AList.delete (trackSid p)) st1
                      in st'\<lparr>trackPublications := AList.delete (trackSid p) (trackPublications st')\<rparr>))
      in (Return found, snd (removeTrack' lt st2)))"
  using assms id_of_accepted [OF assms(1)]
  by (simp add: unpublishTrack_def validateLocalTrack_def Let_def)

lemma unpublishTrack_attempts_timers:
  assumes "id_of v = Some i" and "map_of (tracks st) i = Some lt"
    and "map_of (signaling_tracks st) (track_id lt) = Some a"
  shows "attempts (snd (unpublishTrack v st)) = attempts (publishFailed a (WasUnpublished lt) st)
     \<and> timers (snd (unpublishTrack v st)) = timers (publishFailed a (WasUnpublished lt) st)
     \<and> map_of (tracks (snd (unpublishTrack v st))) (track_id lt) = None"
proof -
  let ?st1 = "publishFailed a (WasUnpublished lt) st"
  let ?found = "getTrackPublication (trackPublications ?st1) (LocalTrackV lt)"
  let ?st2 = "case ?found of
                   None \<Rightarrow> ?st1
                 | Some p \<Rightarrow>
                     (let st' = publishedKindTracks_update (kind lt) (AList.delete (trackSid p)) ?st1
                      in st'\<lparr>trackPublications := AList.delete (trackSid p) (trackPublications st')\<rparr>)"
  have eq: "snd (unpublishTrack v st) = snd (removeTrack' lt ?st2)"
    using unpublishTrack_eq [OF assms] by (simp add: Let_def)
  have a2: "attempts ?st2 = attempts ?st1"
    by (cases ?found) (simp_all add: Let_def attempts_kind_update)
  have t2: "timers ?st2 = timers ?st1"
    by (cases ?found) (simp_all add: Let_def)
  show ?thesis
    by (simp add: eq attempts_removeTrack' a2 t2 tracks_removeTrack')
qed

text \<open>
  C5, as amended. When \<open>unpublishTrack\<close> is called for a track whose publish is pending
  (its attempt is attached to the current signaling record of the registered track, and
  that record holds neither an identifier nor an error), the pending promise is rejected
  with the "was unpublished" error, but through the error branch of the listener:
  \<open>publishFailed\<close> sets the error of the record before the track leaves the registry, so
  a trackPublicationFailed notification with that error and the track is queued as a
  timer.
\<close>

theorem unpublishTrack_rejects_pending_publish:
  assumes "n < length (attempts st)"
    and "a_promise (attempts st ! n) = Pending" and "a_attached (attempts st ! n)"
    and "map_of (tracks st) (track_id (a_track (attempts st ! n))) = Some (a_track (attempts st ! n))"
    and "map_of (signaling_tracks st) (track_id (a_track (attempts st ! n)))
           = Some (a_signaling (attempts st ! n))"
    and "sid (store st (a_signaling (attempts st ! n))) = None"
    and "error (store st (a_signaling (attempts st ! n))) = None"
    and "id_of v = Some (track_id (a_track (attempts st ! n)))"
  shows "a_promise (attempts (snd (unpublishTrack v st)) ! n)
           = Rejected (WasUnpublished (a_track (attempts st ! n)))
     \<and> \<not> a_attached (attempts (snd (unpublishTrack v st)) ! n)
     \<and> trackPublicationFailed (WasUnpublished (a_track (attempts st ! n))) (a_track (attempts st ! n))
         \<in> set (timers (snd (unpublishTrack v st)))
     \<and> map_of (tracks (snd (unpublishTrack v st))) (track_id (a_track (attempts st ! n))) = None"
proof -
  have sub: "submitting (store st (a_signaling (attempts st ! n)))"
    using assms(6,7) by (simp add: submitting_def)
  show ?thesis
    using unpublishTrack_attempts_timers [OF assms(8) assms(4) assms(5)]
      publishFailed_rejects [OF assms(1) assms(3) assms(2) sub,
        of "WasUnpublished (a_track (attempts st ! n))"]
    by simp
qed

theorem unpublishTrack_rejects_pending_publish_witness:
  "0 < length (attempts s0) \<and> a_promise (attempts s0 ! 0) = Pending \<and> a_attached (attempts s0 ! 0)
   \<and> sid (store s0 (a_signaling (attempts s0 ! 0))) = None
   \<and> error (store s0 (a_signaling (attempts s0 ! 0))) = None
   \<and> a_promise (attempts (snd (unpublishTrack (LocalTrackV tA) s0)) ! 0)
       = Rejected (WasUnpublished tA)
   \<and> trackPublicationFailed (WasUnpublished tA) tA
       \<in> set (timers (snd (unpublishTrack (LocalTrackV tA) s0)))"
proof -
  have h1: "0 < length (attempts s0)" by code_simp
  have h2: "a_promise (attempts s0 ! 0) = Pending" by code_simp
  have h3: "a_attached (attempts s0 ! 0)" by code_simp
  have h4: "map_of (tracks s0) (track_id (a_track (attempts s0 ! 0))) = Some (a_track (attempts s0 ! 0))"
    by code_simp
  have h5: "map_of (signaling_tracks s0) (track_id (a_track (attempts s0 ! 0)))
           = Some (a_signaling (attempts s0 ! 0))" by code_simp
  have h6: "sid (store s0 (a_signaling (attempts s0 ! 0))) = None" by code_simp
  have h7: "error (store s0 (a_signaling (attempts s0 ! 0))) = None" by code_simp
  have h8: "id_of (LocalTrackV tA) = Some (track_id (a_track (attempts s0 ! 0)))" by code_simp
  have k: "a_track (attempts s0 ! 0) = tA" by code_simp
  show ?thesis
    using h1 h2 h3 h6 h7 k unpublishTrack_rejects_pending_publish [OF h1 h2 h3 h4 h5 h6 h7 h8]
    by simp
qed

text \<open>
  C5 as stated fails: unpublishing the pending track \<open>tA\<close> queues a trackPublicationFailed
  notification, and the next timer emits it.
\<close>

theorem unpublishTrack_pending_announces_failure:
  "a_promise (attempts s0 ! 0) = Pending \<and> a_track (attempts s0 ! 0) = tA
   \<and> fst (unpublishTrack (LocalTrackV tA) s0) = Return None
   \<and> timers (snd (unpublishTrack (LocalTrackV tA) s0))
       = [trackPublicationFailed (WasUnpublished tA) tA]
   \<and> effects (run [UnpublishTrack (LocalTrackV tA), Timer] s0)
       = [Emit (trackRemoved tA),
          SetTimeout (trackPublicationFailed (WasUnpublished tA) tA),
          Emit (trackPublicationFailed (WasUnpublished tA) tA)]"
  by code_simp

text \<open>
  The condition on the record is needed. In the state \<open>s_stale\<close> the publish of \<open>tA\<close> is
  pending on a record that still holds the identifier TR1: \<open>publishFailed\<close> changes
  nothing there, no \<open>'updated'\<close> is emitted, and \<open>unpublishTrack\<close> removes the track while
  the promise stays pending with its listener attached.
\<close>

lemma unpublishTrack_stale_record_leaves_pending:
  "a_track (attempts s_stale ! 2) = tA \<and> a_promise (attempts s_stale ! 2) = Pending
   \<and> a_attached (attempts s_stale ! 2)
   \<and> map_of (tracks s_stale) ''a'' = Some tA
   \<and> map_of (signaling_tracks s_stale) ''a'' = Some (a_signaling (attempts s_stale ! 2))
   \<and> sid (store s_stale (a_signaling (attempts s_stale ! 2))) = Some ''TR1''
   \<and> fst (unpublishTrack (LocalTrackV tA) s_stale) = Return None
   \<and> map_of (tracks (snd (unpublishTrack (LocalTrackV tA) s_stale))) ''a'' = None
   \<and> a_promise (attempts (snd (unpublishTrack (LocalTrackV tA) s_stale)) ! 2) = Pending
   \<and> a_attached (attempts (snd (unpublishTrack (LocalTrackV tA) s_stale)) ! 2)
   \<and> timers (snd (unpublishTrack (LocalTrackV tA) s_stale)) = timers s_stale"
  by code_simp

lemma updated_attempt_n:
  assumes "n < length (attempts st)" and "a_promise (attempts st ! n) = Pending"
  shows "attempts (updated n st) ! n =
     (case error (store st (a_signaling (attempts st ! n))) of
        Some err \<Rightarrow> (attempts st ! n)\<lparr>a_attached := False, a_promise := Rejected err\<rparr>
      | None \<Rightarrow>
          if map_of (tracks st) (track_id (a_track (attempts st ! n))) = None
          then (attempts st ! n)\<lparr>a_attached := False,
                 a_promise := Rejected (WasUnpublished (a_track (attempts st ! n)))\<rparr>
          else (case sid (store st (a_signaling (attempts st ! n))) of
                  None \<Rightarrow> attempts st ! n
                | Some s \<Rightarrow>
                    if s = [] then attempts st ! n
                    else (attempts st ! n)\<lparr>a_attached := False,
                           a_promise := Resolved
                             (case getTrackPublication (trackPublications st)
                                     (LocalTrackV (a_track (attempts st ! n))) of
                                Some q \<Rightarrow> q
                              | None \<Rightarrow> asLocalTrackPublication (a_track (attempts st ! n)) s)\<rparr>))"
proof (cases "error (store st (a_signaling (attempts st ! n)))")
  case (Some err)
  then show ?thesis
    using attempts_updated_error [OF assms(1) Some] assms by simp
next
  case None
  show ?thesis
  proof (cases "map_of (tracks st) (track_id (a_track (attempts st ! n))) = None")
    case True
    then show ?thesis
      using None assms
      by (simp add: updated_def Let_def settle_def removeListener_updated_def)
  next
    case False
    then obtain t' where reg: "map_of (tracks st) (track_id (a_track (attempts st ! n))) = Some t'"
      by blast
    show ?thesis
    proof (cases "sid (store st (a_signaling (attempts st ! n)))")
      case None' : None
      then show ?thesis using None reg by (simp add: updated_def Let_def)
    next
      case (Some s)
      show ?thesis
      proof (cases "s = []")
        case True
        then show ?thesis using None reg Some by (simp add: updated_def Let_def)
      next
        case ne: False
        let ?lt = "a_track (attempts st ! n)"
        let ?found = "getTrackPublication (trackPublications st) (LocalTrackV ?lt)"
        let ?p = "case ?found of Some q \<Rightarrow> q | None \<Rightarrow> asLocalTrackPublication ?lt s"
        let ?st1 = "removeListener_updated n st"
        let ?st2 = "case ?found of Some q \<Rightarrow> ?st1
                 | None \<Rightarrow> publishedKindTracks_update (kind ?lt)
                     (AList.update s ?p) (?st1\<lparr>trackPublications := AList.update s ?p (trackPublications ?st1)\<rparr>)"
        let ?st3 = "if signaling_state st = ''connected'' then setTimeout (trackPublished ?p) ?st2 else ?st2"
        have eq: "updated n st = settle n (Resolved ?p) ?st3"
          using updated_sid_eq [OF None False Some ne refl] by (simp add: Let_def)
        have a2: "attempts ?st2 = attempts ?st1"
          by (cases ?found) (simp_all add: attempts_kind_update)
        have a3: "attempts ?st3 = (attempts st)[n := (attempts st ! n)\<lparr>a_attached := False\<rparr>]"
          using assms(1) a2 by (simp add: attempts_setTimeout removeListener_updated_def)
        have "attempts (settle n (Resolved ?p) ?st3) ! n
            = (attempts st ! n)\<lparr>a_attached := False, a_promise := Resolved ?p\<rparr>"
          using assms a3 by (simp add: settle_def)
        then show ?thesis
          using None reg Some ne eq by simp
      qed
    qed
  qed
qed

lemma updated_waiting:
  assumes "error (store st (a_signaling (attempts st ! n))) = None"
    and "map_of (tracks st) (track_id (a_track (attempts st ! n))) \<noteq> None"
    and "sid (store st (a_signaling (attempts st ! n))) = None
         \<or> sid (store st (a_signaling (attempts st ! n))) = Some []"
  shows "updated n st = st"
proof -
  obtain t' where "map_of (tracks st) (track_id (a_track (attempts st ! n))) = Some t'"
    using assms(2) by blast
  then show ?thesis
    using assms(1,3) by (auto simp: updated_def Let_def)
qed

lemma length_attempts_updated: "length (attempts (updated n st)) \<ge> length (attempts st)"
  using attempts_ext_updated [of st n] by (simp add: attempts_ext_def)

lemma getOrCreate_results:
  assumes "getOrCreateLocalTrackPublication t st = (r, st')"
  shows "(\<exists>m. r = PromiseOf m \<and> m < length (attempts st')
            \<and> a_promise (attempts st' ! m) = Pending \<and> a_attached (attempts st' ! m)
            \<and> length (attempts st') = Suc (length (attempts st)))
     \<or> (r = PromiseSettled (Rejected (CannotBePublished t))
          \<and> map_of (signaling_tracks st') (track_id t) = None \<and> st' = st)
     \<or> (\<exists>p. r = Bare p \<and> p \<in> snd ` set (trackPublications st') \<and> st' = st)"
proof (cases "getTrackPublication (trackPublications st) (LocalTrackV t)")
  case (Some p)
  then have "p \<in> snd ` set (trackPublications st)"
    using getTrackPublication_Some by blast
  then show ?thesis
    using assms Some by (auto simp: getOrCreateLocalTrackPublication_def)
next
  case None
  then show ?thesis
    using assms
    by (cases "map_of (signaling_tracks st) (track_id t)")
       (auto simp: getOrCreateLocalTrackPublication_def)
qed

text \<open>Every way in which \<open>publishTrack\<close> can return.\<close>

lemma publishTrack_results:
  assumes "publishTrack v st = (r, st')"
  shows "(\<exists>m. r = PromiseOf m \<and> m < length (attempts st')
            \<and> a_promise (attempts st' ! m) = Pending \<and> a_attached (attempts st' ! m)
            \<and> length (attempts st') = Suc (length (attempts st)))
     \<or> (\<exists>p. r = PromiseSettled (Resolved p)
            \<and> getTrackPublication (trackPublications st) v = Some p \<and> st' = st)
     \<or> (r = PromiseSettled (Rejected invalid_track) \<and> \<not> accepted v \<and> st' = st)
     \<or> (\<exists>lt. r = PromiseSettled (Rejected (CannotBePublished lt))
            \<and> map_of (signaling_tracks st') (track_id lt) = None
            \<and> attempts st' = attempts st)
     \<or> (\<exists>p. r = Bare p \<and> p \<in> snd ` set (trackPublications st')
            \<and> attempts st' = attempts st)"
proof (cases "getTrackPublication (trackPublications st) v")
  case (Some p)
  then show ?thesis using assms by (auto simp: publishTrack_def)
next
  case None
  show ?thesis
  proof (cases "asLocalTrack v st")
    case (Throw err)
    then have "err = invalid_track \<and> \<not> accepted v"
      by (cases v) (simp_all add: asLocalTrack_def accepted_def)
    then show ?thesis using assms None Throw by (auto simp: publishTrack_def)
  next
    case (Return x)
    obtain t st0 where x: "x = (t, st0)" by (cases x)
    have a0: "attempts st0 = attempts st"
      using Return x attempts_asLocalTrack by blast
    obtain added st1 where ad: "addTrack' t st0 = (added, st1)" by (cases "addTrack' t st0")
    have a1: "attempts st1 = attempts st"
      using attempts_addTrack' [of t st0] ad a0 by simp
    have "\<exists>lt. getOrCreateLocalTrackPublication lt st1 = (r, st')"
    proof (cases "map_of (tracks st0) (track_id t)")
      case None' : None
      then have "added = Some t" using ad by (simp add: addTrack'_def)
      then show ?thesis using assms None Return x ad by (auto simp: publishTrack_def)
    next
      case (Some t')
      then have "added = None" "st1 = st0" using ad by (simp_all add: addTrack'_def)
      then show ?thesis using assms None Return x ad Some by (auto simp: publishTrack_def)
    qed
    then obtain lt where g: "getOrCreateLocalTrackPublication lt st1 = (r, st')" by blast
    show ?thesis
      using getOrCreate_results [OF g] a1 by auto
  qed
qed





section \<open>Registry consistency\<close>

lemma kind_maps_of_view:
  "pubs_view st' = pubs_view st \<Longrightarrow> publishedKindTracks k st' = publishedKindTracks k st"
  by (simp add: pubs_view_def publishedKindTracks_def split: Kind.splits)

lemma flat_of_view:
  "pubs_view st' = pubs_view st \<Longrightarrow> trackPublications st' = trackPublications st"
  by (simp add: pubs_view_def)

lemma matches_LocalTrackV: "matches (LocalTrackV t) p \<longleftrightarrow> track p = t"
  by (auto simp: matches_def strict_eq_track_def)

lemma getTrackPublication_LocalTrackV_None:
  assumes "distinct (map fst pubs)"
  shows "getTrackPublication pubs (LocalTrackV t) = None
         \<longleftrightarrow> (\<forall>s p. map_of pubs s = Some p \<longrightarrow> track p \<noteq> t)"
proof -
  have "getTrackPublication pubs (LocalTrackV t) = None \<longleftrightarrow> (\<forall>p \<in> snd ` set pubs. track p \<noteq> t)"
    by (simp add: getTrackPublication_None matches_LocalTrackV)
  also have "\<dots> \<longleftrightarrow> (\<forall>s p. (s, p) \<in> set pubs \<longrightarrow> track p \<noteq> t)"
    by force
  also have "\<dots> \<longleftrightarrow> (\<forall>s p. map_of pubs s = Some p \<longrightarrow> track p \<noteq> t)"
    using assms by simp
  finally show ?thesis .
qed

lemma getTrackPublication_LocalTrackV_Some:
  assumes "distinct (map fst pubs)" and "getTrackPublication pubs (LocalTrackV t) = Some p"
  shows "\<exists>s. map_of pubs s = Some p \<and> track p = t"
proof -
  have "p \<in> snd ` set pubs" "matches (LocalTrackV t) p"
    using getTrackPublication_Some [OF assms(2)] by blast+
  then obtain s where "(s, p) \<in> set pubs" by force
  then have "map_of pubs s = Some p" using assms(1) by simp
  then show ?thesis using \<open>matches (LocalTrackV t) p\<close> by (auto simp: matches_LocalTrackV)
qed


lemma participant_inv_iff:
  "participant_inv st \<longleftrightarrow>
     inv_tracks st \<and> inv_pubs st \<and> inv_signaling st \<and> inv_attempts {} st \<and> inv_timers st"
  by (simp add: participant_inv_def emitting_inv_def)

text \<open>Fewer emitting records: a weaker invariant.\<close>

lemma emitting_inv_weaken:
  assumes "emitting_inv A st" and "B \<subseteq> A"
  shows "emitting_inv B st"
proof -
  have "inv_attempts B st"
    unfolding inv_attempts_def
  proof (intro allI impI)
    fix n assume "n < length (attempts st)"
    then have "attempt_ok A st (attempts st ! n)"
      using assms(1) by (simp add: emitting_inv_def inv_attempts_def)
    then show "attempt_ok B st (attempts st ! n)"
      using assms(2) unfolding attempt_ok_def live_def by blast
  qed
  then show ?thesis using assms(1) by (simp add: emitting_inv_def)
qed

text \<open>
  How the condition on one attempt is carried from a state to a later one: the record
  stays allocated, a record that cannot emit does not become submitting again, and what
  a live listener needs is shown in the later state.
\<close>

lemma attempt_ok_transfer:
  assumes "attempt_ok A st x"
    and "a_track x' = a_track x \<and> a_signaling x' = a_signaling x
         \<and> (a_attached x' \<longrightarrow> a_attached x)"
    and "next_addr st \<le> next_addr st'"
    and "submitting (store st' (a_signaling x)) \<longrightarrow> submitting (store st (a_signaling x))"
    and "live A st x \<Longrightarrow> a_attached x' \<Longrightarrow>
           map_of (tracks st') (track_id (a_track x)) = Some (a_track x)
           \<and> map_of (signaling_tracks st') (track_id (a_track x)) = Some (a_signaling x)
           \<and> (\<forall>s p. map_of (trackPublications st') s = Some p \<longrightarrow> track p \<noteq> a_track x)"
  shows "attempt_ok A st' x'"
proof -
  have al: "a_signaling x' < next_addr st'"
    using assms(1,2,3) by (simp add: attempt_ok_def)
  have "live A st' x' \<longrightarrow>
          map_of (tracks st') (track_id (a_track x')) = Some (a_track x')
          \<and> map_of (signaling_tracks st') (track_id (a_track x')) = Some (a_signaling x')
          \<and> (\<forall>s p. map_of (trackPublications st') s = Some p \<longrightarrow> track p \<noteq> a_track x')"
  proof
    assume l: "live A st' x'"
    then have at: "a_attached x'" by (simp add: live_def)
    have "live A st x"
      using l assms(2,4) by (auto simp: live_def)
    then show "map_of (tracks st') (track_id (a_track x')) = Some (a_track x')
          \<and> map_of (signaling_tracks st') (track_id (a_track x')) = Some (a_signaling x')
          \<and> (\<forall>s p. map_of (trackPublications st') s = Some p \<longrightarrow> track p \<noteq> a_track x')"
      using assms(5) [OF _ at] assms(2) by simp
  qed
  then show ?thesis using al by (simp add: attempt_ok_def)
qed

lemma live_facts:
  assumes "emitting_inv A st" and "n < length (attempts st)" and "live A st (attempts st ! n)"
  shows "map_of (tracks st) (track_id (a_track (attempts st ! n))) = Some (a_track (attempts st ! n))"
    and "map_of (signaling_tracks st) (track_id (a_track (attempts st ! n)))
           = Some (a_signaling (attempts st ! n))"
    and "\<forall>s p. map_of (trackPublications st) s = Some p \<longrightarrow> track p \<noteq> a_track (attempts st ! n)"
proof -
  have "attempt_ok A st (attempts st ! n)"
    using assms(1,2) by (simp add: emitting_inv_def inv_attempts_def)
  then show "map_of (tracks st) (track_id (a_track (attempts st ! n))) = Some (a_track (attempts st ! n))"
    and "map_of (signaling_tracks st) (track_id (a_track (attempts st ! n)))
           = Some (a_signaling (attempts st ! n))"
    and "\<forall>s p. map_of (trackPublications st) s = Some p \<longrightarrow> track p \<noteq> a_track (attempts st ! n)"
    using assms(3) by (simp_all add: attempt_ok_def)
qed

text \<open>Removing a track that no publication and no live attempt refers to.\<close>

lemma inv_remove_track:
  assumes "emitting_inv A st"
    and "tracks st' = AList.delete i (tracks st)"
    and "signaling_tracks st' = signaling_tracks st
         \<or> signaling_tracks st' = AList.delete i (signaling_tracks st)"
    and "pubs_view st' = pubs_view st" and "next_addr st' = next_addr st"
    and "store st' = store st"
    and "inv_timers st'"
    and "length (attempts st') = length (attempts st)"
    and "\<forall>n < length (attempts st).
           a_track (attempts st' ! n) = a_track (attempts st ! n)
           \<and> a_signaling (attempts st' ! n) = a_signaling (attempts st ! n)
           \<and> (a_attached (attempts st' ! n) \<longrightarrow> a_attached (attempts st ! n))
           \<and> (a_attached (attempts st' ! n) \<and> live A st (attempts st ! n) \<longrightarrow>
                track_id (a_track (attempts st ! n)) \<noteq> i)"
    and "\<forall>s p. map_of (trackPublications st) s = Some p \<longrightarrow> track_id (track p) \<noteq> i"
  shows "emitting_inv A st'"
proof -
  note fl = flat_of_view [OF assms(4)]
  note km = kind_maps_of_view [OF assms(4)]
  have t: "inv_tracks st'"
    using assms(1,2) by (auto simp: emitting_inv_def inv_tracks_def delete_conv' split: if_splits)
  have p: "inv_pubs st'"
    using assms(1,2,10) unfolding emitting_inv_def inv_pubs_def fl km
    by (simp add: delete_conv')
  have s: "inv_signaling st'"
    using assms(1,3,5) unfolding emitting_inv_def inv_signaling_def
    by (auto simp: delete_conv' split: if_splits)
  have a: "inv_attempts A st'"
    unfolding inv_attempts_def
  proof (intro allI impI)
    fix n assume n: "n < length (attempts st')"
    then have n': "n < length (attempts st)" using assms(8) by simp
    have ok: "attempt_ok A st (attempts st ! n)"
      using assms(1) n' by (simp add: emitting_inv_def inv_attempts_def)
    note r = assms(9) [rule_format, OF n']
    show "attempt_ok A st' (attempts st' ! n)"
    proof (rule attempt_ok_transfer [OF ok])
      show "a_track (attempts st' ! n) = a_track (attempts st ! n)
          \<and> a_signaling (attempts st' ! n) = a_signaling (attempts st ! n)
          \<and> (a_attached (attempts st' ! n) \<longrightarrow> a_attached (attempts st ! n))"
        using r by blast
      show "next_addr st \<le> next_addr st'" using assms(5) by simp
      show "submitting (store st' (a_signaling (attempts st ! n)))
          \<longrightarrow> submitting (store st (a_signaling (attempts st ! n)))"
        using assms(6) by simp
    next
      assume l: "live A st (attempts st ! n)" and at: "a_attached (attempts st' ! n)"
      have ne: "track_id (a_track (attempts st ! n)) \<noteq> i" using r l at by blast
      note F = live_facts [OF assms(1) n' l]
      have sg: "map_of (signaling_tracks st') (track_id (a_track (attempts st ! n)))
          = Some (a_signaling (attempts st ! n))"
        using assms(3) F(2) ne by (auto simp: delete_conv')
      show "map_of (tracks st') (track_id (a_track (attempts st ! n)))
              = Some (a_track (attempts st ! n))
          \<and> map_of (signaling_tracks st') (track_id (a_track (attempts st ! n)))
              = Some (a_signaling (attempts st ! n))
          \<and> (\<forall>s p. map_of (trackPublications st') s = Some p \<longrightarrow>
                track p \<noteq> a_track (attempts st ! n))"
        using F(1) F(3) sg ne assms(2) unfolding fl by (simp add: delete_conv')
    qed
  qed
  show ?thesis using t p s a assms(7) by (simp add: emitting_inv_def)
qed

text \<open>Changes that touch neither the registries, nor the signaling lookup, nor the records.\<close>

lemma inv_detach:
  assumes "emitting_inv A st"
    and "tracks st' = tracks st" and "signaling_tracks st' = signaling_tracks st"
    and "pubs_view st' = pubs_view st" and "next_addr st' = next_addr st"
    and "store st' = store st"
    and "inv_timers st'"
    and "length (attempts st') = length (attempts st)"
    and "\<forall>n < length (attempts st).
           a_track (attempts st' ! n) = a_track (attempts st ! n)
           \<and> a_signaling (attempts st' ! n) = a_signaling (attempts st ! n)
           \<and> (a_attached (attempts st' ! n) \<longrightarrow> a_attached (attempts st ! n))"
  shows "emitting_inv A st'"
proof -
  note fl = flat_of_view [OF assms(4)]
  note km = kind_maps_of_view [OF assms(4)]
  have t: "inv_tracks st'"
    using assms(1,2) by (simp add: emitting_inv_def inv_tracks_def)
  have p: "inv_pubs st'"
    using assms(1,2) unfolding emitting_inv_def inv_pubs_def fl km by simp
  have s: "inv_signaling st'"
    using assms(1,3,5) unfolding emitting_inv_def inv_signaling_def by simp
  have a: "inv_attempts A st'"
    unfolding inv_attempts_def
  proof (intro allI impI)
    fix n assume n: "n < length (attempts st')"
    then have n': "n < length (attempts st)" using assms(8) by simp
    have ok: "attempt_ok A st (attempts st ! n)"
      using assms(1) n' by (simp add: emitting_inv_def inv_attempts_def)
    note r = assms(9) [rule_format, OF n']
    show "attempt_ok A st' (attempts st' ! n)"
    proof (rule attempt_ok_transfer [OF ok r])
      show "next_addr st \<le> next_addr st'" using assms(5) by simp
      show "submitting (store st' (a_signaling (attempts st ! n)))
          \<longrightarrow> submitting (store st (a_signaling (attempts st ! n)))"
        using assms(6) by simp
    next
      assume l: "live A st (attempts st ! n)"
      note F = live_facts [OF assms(1) n' l]
      show "map_of (tracks st') (track_id (a_track (attempts st ! n)))
              = Some (a_track (attempts st ! n))
          \<and> map_of (signaling_tracks st') (track_id (a_track (attempts st ! n)))
              = Some (a_signaling (attempts st ! n))
          \<and> (\<forall>s p. map_of (trackPublications st') s = Some p \<longrightarrow>
                track p \<noteq> a_track (attempts st ! n))"
        using F assms(2,3) unfolding fl by simp
    qed
  qed
  show ?thesis using t p s a assms(7) by (simp add: emitting_inv_def)
qed

text \<open>Deleting a publication from the flat registry and from the registry of its kind.\<close>

lemma inv_delete_pub:
  assumes "emitting_inv A st"
    and "map_of (trackPublications st) s = Some p"
    and "trackPublications st' = AList.delete s (trackPublications st)"
    and "\<forall>k. publishedKindTracks k st' =
           (if k = kind (track p) then AList.delete s (publishedKindTracks k st)
            else publishedKindTracks k st)"
    and "tracks st' = tracks st" and "signaling_tracks st' = signaling_tracks st"
    and "next_addr st' = next_addr st" and "timers st' = timers st"
    and "attempts st' = attempts st" and "store st' = store st"
  shows "emitting_inv A st'"
proof -
  have t: "inv_tracks st'"
    using assms(1,5) by (simp add: emitting_inv_def inv_tracks_def)
  have ip: "inv_pubs st" using assms(1) by (simp add: emitting_inv_def)
  have p1: "distinct (map fst (trackPublications st'))"
    using ip assms(3) by (simp add: inv_pubs_def distinct_delete)
  have p2: "\<forall>s' p'. map_of (trackPublications st') s' = Some p' \<longrightarrow>
           trackSid p' = s' \<and> map_of (tracks st') (track_id (track p')) = Some (track p')"
    using ip assms(3,5) by (auto simp: inv_pubs_def delete_conv' split: if_splits)
  have p3: "\<forall>s1 p1 s2 p2. map_of (trackPublications st') s1 = Some p1 \<longrightarrow>
           map_of (trackPublications st') s2 = Some p2 \<longrightarrow> track p1 = track p2 \<longrightarrow> s1 = s2"
    using ip assms(3) unfolding inv_pubs_def
    by (simp add: delete_conv' split: if_splits)
  have p4: "\<forall>k s' p'. map_of (publishedKindTracks k st') s' = Some p' \<longrightarrow>
           map_of (trackPublications st') s' = Some p' \<and> kind (track p') = k"
  proof (intro allI impI)
    fix k s' p' assume h: "map_of (publishedKindTracks k st') s' = Some p'"
    show "map_of (trackPublications st') s' = Some p' \<and> kind (track p') = k"
    proof (cases "k = kind (track p)")
      case True
      then have "map_of (AList.delete s (publishedKindTracks k st)) s' = Some p'"
        using h assms(4) by simp
      then have "s' \<noteq> s" "map_of (publishedKindTracks k st) s' = Some p'"
        by (auto simp: delete_conv' split: if_splits)
      then show ?thesis using ip assms(3) by (auto simp: inv_pubs_def delete_conv')
    next
      case False
      then have k: "map_of (publishedKindTracks k st) s' = Some p'"
        using h assms(4) by simp
      then have f: "map_of (trackPublications st) s' = Some p'" "kind (track p') = k"
        using ip by (auto simp: inv_pubs_def)
      have "s' \<noteq> s"
      proof
        assume "s' = s"
        then have "p' = p" using f(1) assms(2) by simp
        then show False using f(2) False by simp
      qed
      then show ?thesis using f assms(3) by (simp add: delete_conv')
    qed
  qed
  have p: "inv_pubs st'"
    using p1 p2 p3 p4 unfolding inv_pubs_def by blast
  have sg: "inv_signaling st'"
    using assms(1,6,7) by (simp add: emitting_inv_def inv_signaling_def)
  have a: "inv_attempts A st'"
    unfolding inv_attempts_def
  proof (intro allI impI)
    fix n assume n: "n < length (attempts st')"
    then have n': "n < length (attempts st)" using assms(9) by simp
    have ok: "attempt_ok A st (attempts st ! n)"
      using assms(1) n' by (simp add: emitting_inv_def inv_attempts_def)
    show "attempt_ok A st' (attempts st' ! n)"
      unfolding assms(9)
    proof (rule attempt_ok_transfer [OF ok])
      show "a_track (attempts st ! n) = a_track (attempts st ! n)
          \<and> a_signaling (attempts st ! n) = a_signaling (attempts st ! n)
          \<and> (a_attached (attempts st ! n) \<longrightarrow> a_attached (attempts st ! n))" by simp
      show "next_addr st \<le> next_addr st'" using assms(7) by simp
      show "submitting (store st' (a_signaling (attempts st ! n)))
          \<longrightarrow> submitting (store st (a_signaling (attempts st ! n)))"
        using assms(10) by simp
    next
      assume l: "live A st (attempts st ! n)"
      note F = live_facts [OF assms(1) n' l]
      show "map_of (tracks st') (track_id (a_track (attempts st ! n)))
              = Some (a_track (attempts st ! n))
          \<and> map_of (signaling_tracks st') (track_id (a_track (attempts st ! n)))
              = Some (a_signaling (attempts st ! n))
          \<and> (\<forall>s p. map_of (trackPublications st') s = Some p \<longrightarrow>
                track p \<noteq> a_track (attempts st ! n))"
        using F assms(3,5,6) by (auto simp: delete_conv' split: if_splits)
    qed
  qed
  have ti: "inv_timers st'"
    using assms(1,8) by (simp add: emitting_inv_def inv_timers_def)
  show ?thesis using t p sg a ti by (simp add: emitting_inv_def)
qed


text \<open>Registering a new track, with or without a new signaling record.\<close>

lemma inv_add_track:
  assumes "emitting_inv A st"
    and "map_of (tracks st) (track_id t) = None"
    and "tracks st' = AList.update (track_id t) t (tracks st)"
    and "(signaling_tracks st' = signaling_tracks st \<and> next_addr st' = next_addr st)
         \<or> (signaling_tracks st' = AList.update (track_id t) (next_addr st) (signaling_tracks st)
             \<and> next_addr st' = Suc (next_addr st))"
    and "pubs_view st' = pubs_view st" and "timers st' = timers st"
    and "attempts st' = attempts st"
    and "\<forall>b < next_addr st. store st' b = store st b"
  shows "emitting_inv A st'"
proof -
  note fl = flat_of_view [OF assms(5)]
  note km = kind_maps_of_view [OF assms(5)]
  have t: "inv_tracks st'"
    using assms(1,3) by (auto simp: emitting_inv_def inv_tracks_def update_conv')
  have ip: "inv_pubs st" using assms(1) by (simp add: emitting_inv_def)
  have p2: "\<forall>s p. map_of (trackPublications st) s = Some p \<longrightarrow>
           trackSid p = s \<and> map_of (tracks st') (track_id (track p)) = Some (track p)"
  proof (intro allI impI)
    fix s p assume h: "map_of (trackPublications st) s = Some p"
    have o: "trackSid p = s \<and> map_of (tracks st) (track_id (track p)) = Some (track p)"
      using ip h unfolding inv_pubs_def by blast
    then have "track_id (track p) \<noteq> track_id t" using assms(2) by auto
    then show "trackSid p = s \<and> map_of (tracks st') (track_id (track p)) = Some (track p)"
      using o assms(3) by (simp add: update_conv')
  qed
  have p: "inv_pubs st'"
    using ip p2 unfolding inv_pubs_def fl km by blast
  have s: "inv_signaling st'"
    using assms(4)
  proof
    assume "signaling_tracks st' = signaling_tracks st \<and> next_addr st' = next_addr st"
    then show ?thesis using assms(1) by (simp add: emitting_inv_def inv_signaling_def)
  next
    assume h: "signaling_tracks st' = AList.update (track_id t) (next_addr st) (signaling_tracks st)
             \<and> next_addr st' = Suc (next_addr st)"
    have old: "\<forall>i a. map_of (signaling_tracks st) i = Some a \<longrightarrow> a < next_addr st"
      and inj: "\<forall>i j a. map_of (signaling_tracks st) i = Some a \<longrightarrow>
         map_of (signaling_tracks st) j = Some a \<longrightarrow> i = j"
      using assms(1) by (auto simp: emitting_inv_def inv_signaling_def)
    show ?thesis
      unfolding inv_signaling_def
    proof (intro conjI allI impI)
      fix i j a
      assume a: "map_of (signaling_tracks st') i = Some a" "map_of (signaling_tracks st') j = Some a"
      show "i = j"
      proof (cases "i = track_id t")
        case True
        then have "a = next_addr st" using a(1) h by (simp add: update_conv')
        then show ?thesis
          using a(2) h True old by (cases "j = track_id t") (auto simp: update_conv')
      next
        case False
        then have ia: "map_of (signaling_tracks st) i = Some a" using a(1) h by (simp add: update_conv')
        then have "a < next_addr st" using old by blast
        then have "j \<noteq> track_id t" using a(2) h by (auto simp: update_conv')
        then have "map_of (signaling_tracks st) j = Some a" using a(2) h by (simp add: update_conv')
        then show ?thesis using ia inj by blast
      qed
    next
      fix i a
      assume "map_of (signaling_tracks st') i = Some a"
      then show "a < next_addr st'"
        using h old by (cases "i = track_id t") (auto simp: update_conv' less_Suc_eq)
    qed
  qed
  have a: "inv_attempts A st'"
    unfolding inv_attempts_def
  proof (intro allI impI)
    fix n assume n: "n < length (attempts st')"
    then have n': "n < length (attempts st)" using assms(7) by simp
    have ok: "attempt_ok A st (attempts st ! n)"
      using assms(1) n' by (simp add: emitting_inv_def inv_attempts_def)
    then have al: "a_signaling (attempts st ! n) < next_addr st"
      by (simp add: attempt_ok_def)
    show "attempt_ok A st' (attempts st' ! n)"
      unfolding assms(7)
    proof (rule attempt_ok_transfer [OF ok])
      show "a_track (attempts st ! n) = a_track (attempts st ! n)
          \<and> a_signaling (attempts st ! n) = a_signaling (attempts st ! n)
          \<and> (a_attached (attempts st ! n) \<longrightarrow> a_attached (attempts st ! n))" by simp
      show "next_addr st \<le> next_addr st'" using assms(4) by auto
      show "submitting (store st' (a_signaling (attempts st ! n)))
          \<longrightarrow> submitting (store st (a_signaling (attempts st ! n)))"
        using assms(8) al by simp
    next
      assume l: "live A st (attempts st ! n)"
      note F = live_facts [OF assms(1) n' l]
      have ne: "track_id (a_track (attempts st ! n)) \<noteq> track_id t"
        using F(1) assms(2) by auto
      show "map_of (tracks st') (track_id (a_track (attempts st ! n)))
              = Some (a_track (attempts st ! n))
          \<and> map_of (signaling_tracks st') (track_id (a_track (attempts st ! n)))
              = Some (a_signaling (attempts st ! n))
          \<and> (\<forall>s p. map_of (trackPublications st') s = Some p \<longrightarrow>
                track p \<noteq> a_track (attempts st ! n))"
        using F ne assms(3,4) unfolding fl by (auto simp: update_conv')
    qed
  qed
  have ti: "inv_timers st'"
    using assms(1,6) by (simp add: emitting_inv_def inv_timers_def)
  show ?thesis using t p s a ti by (simp add: emitting_inv_def)
qed

text \<open>A new attempt on the current record of a registered track without publication.\<close>

lemma inv_new_attempt:
  assumes "emitting_inv A st"
    and "attempts st' = attempts st @ [\<lparr>a_track = lt, a_signaling = a, a_attached = True,
                                        a_promise = Pending\<rparr>]"
    and "map_of (tracks st) (track_id lt) = Some lt"
    and "map_of (signaling_tracks st) (track_id lt) = Some a"
    and "getTrackPublication (trackPublications st) (LocalTrackV lt) = None"
    and "tracks st' = tracks st" and "signaling_tracks st' = signaling_tracks st"
    and "pubs_view st' = pubs_view st" and "next_addr st' = next_addr st"
    and "timers st' = timers st" and "store st' = store st"
  shows "emitting_inv A st'"
proof -
  note fl = flat_of_view [OF assms(8)]
  note km = kind_maps_of_view [OF assms(8)]
  have t: "inv_tracks st'"
    using assms(1,6) by (simp add: emitting_inv_def inv_tracks_def)
  have p: "inv_pubs st'"
    using assms(1,6) unfolding emitting_inv_def inv_pubs_def fl km by simp
  have s: "inv_signaling st'"
    using assms(1,7,9) unfolding emitting_inv_def inv_signaling_def by simp
  have d: "distinct (map fst (trackPublications st))"
    using assms(1) by (simp add: emitting_inv_def inv_pubs_def)
  have nop: "\<forall>s p. map_of (trackPublications st) s = Some p \<longrightarrow> track p \<noteq> lt"
    using assms(5) getTrackPublication_LocalTrackV_None [OF d] by blast
  have al: "a < next_addr st"
    using assms(1,4) unfolding emitting_inv_def inv_signaling_def by blast
  have a: "inv_attempts A st'"
    unfolding inv_attempts_def
  proof (intro allI impI)
    fix n assume n: "n < length (attempts st')"
    show "attempt_ok A st' (attempts st' ! n)"
    proof (cases "n < length (attempts st)")
      case True
      then have ok: "attempt_ok A st (attempts st ! n)"
        using assms(1) by (simp add: emitting_inv_def inv_attempts_def)
      have e: "attempts st' ! n = attempts st ! n"
        using True assms(2) by (simp add: nth_append)
      show ?thesis
        unfolding e
      proof (rule attempt_ok_transfer [OF ok])
        show "a_track (attempts st ! n) = a_track (attempts st ! n)
          \<and> a_signaling (attempts st ! n) = a_signaling (attempts st ! n)
          \<and> (a_attached (attempts st ! n) \<longrightarrow> a_attached (attempts st ! n))" by simp
        show "next_addr st \<le> next_addr st'" using assms(9) by simp
        show "submitting (store st' (a_signaling (attempts st ! n)))
          \<longrightarrow> submitting (store st (a_signaling (attempts st ! n)))"
          using assms(11) by simp
      next
        assume l: "live A st (attempts st ! n)"
        note F = live_facts [OF assms(1) True l]
        show "map_of (tracks st') (track_id (a_track (attempts st ! n)))
              = Some (a_track (attempts st ! n))
          \<and> map_of (signaling_tracks st') (track_id (a_track (attempts st ! n)))
              = Some (a_signaling (attempts st ! n))
          \<and> (\<forall>s p. map_of (trackPublications st') s = Some p \<longrightarrow>
                track p \<noteq> a_track (attempts st ! n))"
          using F assms(6,7) unfolding fl by simp
      qed
    next
      case False
      then have "n = length (attempts st)" using n assms(2) by simp
      then show ?thesis
        using assms(2,3,4,6,7,9) nop al unfolding attempt_ok_def fl by simp
    qed
  qed
  have ti: "inv_timers st'"
    using assms(1,10) by (simp add: emitting_inv_def inv_timers_def)
  show ?thesis using t p s a ti by (simp add: emitting_inv_def)
qed

text \<open>
  A new publication for a registered track under an identifier not in use, with every
  live attempt for that track detached.
\<close>

lemma inv_new_pub:
  assumes "emitting_inv A st"
    and "map_of (trackPublications st) s = None"
    and "map_of (tracks st) (track_id lt) = Some lt"
    and "\<forall>s' p'. map_of (trackPublications st) s' = Some p' \<longrightarrow> track p' \<noteq> lt"
    and "trackPublications st' = AList.update s \<lparr>track = lt, trackSid = s\<rparr> (trackPublications st)"
    and "\<forall>k. publishedKindTracks k st' =
           (if k = kind lt
            then AList.update s \<lparr>track = lt, trackSid = s\<rparr> (publishedKindTracks k st)
            else publishedKindTracks k st)"
    and "tracks st' = tracks st" and "signaling_tracks st' = signaling_tracks st"
    and "next_addr st' = next_addr st" and "inv_timers st'"
    and "length (attempts st') = length (attempts st)"
    and "\<forall>n < length (attempts st).
           a_track (attempts st' ! n) = a_track (attempts st ! n)
           \<and> a_signaling (attempts st' ! n) = a_signaling (attempts st ! n)
           \<and> (a_attached (attempts st' ! n) \<longrightarrow> a_attached (attempts st ! n))
           \<and> (a_attached (attempts st' ! n) \<and> live A st (attempts st ! n) \<longrightarrow>
                a_track (attempts st ! n) \<noteq> lt)"
    and "store st' = store st"
  shows "emitting_inv A st'"
proof -
  have ip: "inv_pubs st" using assms(1) by (simp add: emitting_inv_def)
  have t: "inv_tracks st'"
    using assms(1,7) by (simp add: emitting_inv_def inv_tracks_def)
  have p1: "distinct (map fst (trackPublications st'))"
    using ip assms(5) by (simp add: inv_pubs_def distinct_update)
  have p2: "\<forall>s' p'. map_of (trackPublications st') s' = Some p' \<longrightarrow>
           trackSid p' = s' \<and> map_of (tracks st') (track_id (track p')) = Some (track p')"
    using ip assms(3,5,7) by (auto simp: inv_pubs_def update_conv' split: if_splits)
  have p3: "\<forall>s1 p1 s2 p2. map_of (trackPublications st') s1 = Some p1 \<longrightarrow>
           map_of (trackPublications st') s2 = Some p2 \<longrightarrow> track p1 = track p2 \<longrightarrow> s1 = s2"
  proof (intro allI impI)
    fix s1 p1 s2 p2
    assume h: "map_of (trackPublications st') s1 = Some p1"
      "map_of (trackPublications st') s2 = Some p2" "track p1 = track p2"
    show "s1 = s2"
    proof (cases "s1 = s")
      case True
      then have "track p1 = lt" using h(1) assms(5) by (auto simp: update_conv')
      then have "track p2 = lt" using h(3) by simp
      then show ?thesis
        using h(2) assms(4,5) True by (cases "s2 = s") (auto simp: update_conv')
    next
      case False
      then have o1: "map_of (trackPublications st) s1 = Some p1"
        using h(1) assms(5) by (simp add: update_conv')
      then have "track p1 \<noteq> lt" using assms(4) by blast
      then have "s2 \<noteq> s" using h(2,3) assms(5) by (auto simp: update_conv')
      then have "map_of (trackPublications st) s2 = Some p2"
        using h(2) assms(5) by (simp add: update_conv')
      then show ?thesis using o1 h(3) ip unfolding inv_pubs_def by blast
    qed
  qed
  have p4: "\<forall>k s' p'. map_of (publishedKindTracks k st') s' = Some p' \<longrightarrow>
           map_of (trackPublications st') s' = Some p' \<and> kind (track p') = k"
  proof (intro allI impI)
    fix k s' p' assume h: "map_of (publishedKindTracks k st') s' = Some p'"
    show "map_of (trackPublications st') s' = Some p' \<and> kind (track p') = k"
    proof (cases "k = kind lt \<and> s' = s")
      case True
      then show ?thesis using h assms(5,6) by (auto simp: update_conv')
    next
      case False
      then have "map_of (publishedKindTracks k st) s' = Some p'"
        using h assms(6) by (auto simp: update_conv' split: if_splits)
      then have f: "map_of (trackPublications st) s' = Some p'" "kind (track p') = k"
        using ip by (auto simp: inv_pubs_def)
      then have "s' \<noteq> s" using assms(2) by auto
      then show ?thesis using f assms(5) by (simp add: update_conv')
    qed
  qed
  have p: "inv_pubs st'"
    using p1 p2 p3 p4 unfolding inv_pubs_def by blast
  have sg: "inv_signaling st'"
    using assms(1,8,9) by (simp add: emitting_inv_def inv_signaling_def)
  have a: "inv_attempts A st'"
    unfolding inv_attempts_def
  proof (intro allI impI)
    fix n assume n: "n < length (attempts st')"
    then have n': "n < length (attempts st)" using assms(11) by simp
    have ok: "attempt_ok A st (attempts st ! n)"
      using assms(1) n' by (simp add: emitting_inv_def inv_attempts_def)
    note r = assms(12) [rule_format, OF n']
    show "attempt_ok A st' (attempts st' ! n)"
    proof (rule attempt_ok_transfer [OF ok])
      show "a_track (attempts st' ! n) = a_track (attempts st ! n)
          \<and> a_signaling (attempts st' ! n) = a_signaling (attempts st ! n)
          \<and> (a_attached (attempts st' ! n) \<longrightarrow> a_attached (attempts st ! n))"
        using r by blast
      show "next_addr st \<le> next_addr st'" using assms(9) by simp
      show "submitting (store st' (a_signaling (attempts st ! n)))
          \<longrightarrow> submitting (store st (a_signaling (attempts st ! n)))"
        using assms(13) by simp
    next
      assume l: "live A st (attempts st ! n)" and at: "a_attached (attempts st' ! n)"
      have ne: "a_track (attempts st ! n) \<noteq> lt" using r l at by blast
      note F = live_facts [OF assms(1) n' l]
      show "map_of (tracks st') (track_id (a_track (attempts st ! n)))
              = Some (a_track (attempts st ! n))
          \<and> map_of (signaling_tracks st') (track_id (a_track (attempts st ! n)))
              = Some (a_signaling (attempts st ! n))
          \<and> (\<forall>s p. map_of (trackPublications st') s = Some p \<longrightarrow>
                track p \<noteq> a_track (attempts st ! n))"
        using F ne assms(5,7,8) by (auto simp: update_conv' split: if_splits)
    qed
  qed
  show ?thesis using t p sg a assms(10) by (simp add: emitting_inv_def)
qed


lemma inv_same:
  assumes "emitting_inv A st"
    and "tracks st' = tracks st" and "signaling_tracks st' = signaling_tracks st"
    and "pubs_view st' = pubs_view st" and "next_addr st' = next_addr st"
    and "attempts st' = attempts st" and "timers st' = timers st"
    and "store st' = store st"
  shows "emitting_inv A st'"
proof -
  have "inv_timers st'" using assms(1,7) by (simp add: emitting_inv_def inv_timers_def)
  then show ?thesis
    using inv_detach [OF assms(1) assms(2) assms(3) assms(4) assms(5) assms(8)] assms(6) by simp
qed

text \<open>
  A submitting record \<open>a\<close> receives an error or an identifier and is about to emit
  \<open>'updated'\<close>: its listeners are live during the emission.
\<close>

lemma inv_store_mark:
  assumes "participant_inv st" and "submitting (store st a)"
  shows "emitting_inv {a} (st\<lparr>store := (store st)(a := r)\<rparr>)"
proof -
  let ?s = "st\<lparr>store := (store st)(a := r)\<rparr>"
  have e: "emitting_inv {} st" using assms(1) by (simp add: participant_inv_def)
  have km: "\<And>k. publishedKindTracks k ?s = publishedKindTracks k st"
    by (simp add: publishedKindTracks_def split: Kind.splits)
  have t: "inv_tracks ?s" using e by (simp add: emitting_inv_def inv_tracks_def)
  have p: "inv_pubs ?s" using e unfolding emitting_inv_def inv_pubs_def km by simp
  have s: "inv_signaling ?s" using e by (simp add: emitting_inv_def inv_signaling_def)
  have ti: "inv_timers ?s" using e by (simp add: emitting_inv_def inv_timers_def)
  have at: "inv_attempts {a} ?s"
    unfolding inv_attempts_def
  proof (intro allI impI)
    fix n assume "n < length (attempts ?s)"
    then have n: "n < length (attempts st)" by simp
    have ok: "attempt_ok {} st (attempts st ! n)"
      using e n by (simp add: emitting_inv_def inv_attempts_def)
    have "live {a} ?s (attempts st ! n) \<longrightarrow> live {} st (attempts st ! n)"
      using assms(2) by (auto simp: live_def)
    then show "attempt_ok {a} ?s (attempts ?s ! n)"
      using ok by (auto simp: attempt_ok_def)
  qed
  show ?thesis using t p s at ti by (simp add: emitting_inv_def)
qed


lemma delete_absent: "map_of m k = None \<Longrightarrow> AList.delete k m = m"
  by (simp add: map_of_eq_None_iff)

lemma tracks_removeTrack'_eq:
  "tracks (snd (removeTrack' t st)) = AList.delete (track_id t) (tracks st)"
  by (simp add: removeTrack'_def delete_absent split: option.splits)

lemma signaling_tracks_removeTrack':
  assumes "inv_tracks st"
  shows "signaling_tracks (snd (removeTrack' t st)) = signaling_tracks st
       \<or> signaling_tracks (snd (removeTrack' t st))
           = AList.delete (track_id t) (signaling_tracks st)"
proof (cases "map_of (tracks st) (track_id t)")
  case None
  then show ?thesis by (simp add: removeTrack'_def)
next
  case (Some t')
  then have "track_id t' = track_id t" using assms by (simp add: inv_tracks_def)
  then show ?thesis
    using Some
    by (simp add: removeTrack'_def emit_def do_effect_def localTrackRemoved_def
        signaling_removeTrack_def Let_def)
qed

lemma next_addr_removeTrack' [simp]: "next_addr (snd (removeTrack' t st)) = next_addr st"
  by (simp add: removeTrack'_def emit_def do_effect_def localTrackRemoved_def
      signaling_removeTrack_def Let_def split: option.splits)

lemma inv_tracks_delete:
  "inv_tracks st \<Longrightarrow> tracks st' = AList.delete i (tracks st) \<Longrightarrow> inv_tracks st'"
  by (auto simp: inv_tracks_def delete_conv' split: if_splits)

lemma updated_error_registry:
  assumes "error (store st (a_signaling (attempts st ! n))) = Some err"
    and "inv_tracks st"
  shows "tracks (updated n st) = AList.delete (track_id (a_track (attempts st ! n))) (tracks st)
     \<and> (signaling_tracks (updated n st) = signaling_tracks st
        \<or> signaling_tracks (updated n st)
            = AList.delete (track_id (a_track (attempts st ! n))) (signaling_tracks st))
     \<and> next_addr (updated n st) = next_addr st"
proof -
  let ?s1 = "removeListener_updated n st"
  have it: "inv_tracks ?s1" using assms(2) by (simp add: inv_tracks_def)
  have sg1: "signaling_tracks ?s1 = signaling_tracks st"
    by (simp add: removeListener_updated_def)
  have na1: "next_addr ?s1 = next_addr st"
    by (simp add: removeListener_updated_def)
  have sgs: "\<And>v x. signaling_tracks (settle n v x) = signaling_tracks x"
    by (simp add: settle_def)
  have sgt: "\<And>ev x. signaling_tracks (setTimeout ev x) = signaling_tracks x"
    by (simp add: setTimeout_def do_effect_def)
  have nas: "\<And>v x. next_addr (settle n v x) = next_addr x"
    by (simp add: settle_def)
  have nat: "\<And>ev x. next_addr (setTimeout ev x) = next_addr x"
    by (simp add: setTimeout_def do_effect_def)
  show ?thesis
    using signaling_tracks_removeTrack' [OF it, of "a_track (attempts st ! n)"]
    by (simp add: updated_error_eq [OF assms(1)] tracks_removeTrack'_eq sgs sgt nas nat sg1 na1)
qed

lemma foldl_updated_error_registry:
  assumes "error (store s a) = Some err"
    and "\<forall>k \<in> set ns. k < length (attempts s) \<and> a_signaling (attempts s ! k) = a
           \<and> track_id (a_track (attempts s ! k)) = i"
    and "distinct ns" and "inv_tracks s"
  shows "tracks (foldl (\<lambda>s n. updated n s) s ns)
           = (if ns = [] then tracks s else AList.delete i (tracks s))
     \<and> (signaling_tracks (foldl (\<lambda>s n. updated n s) s ns) = signaling_tracks s
        \<or> signaling_tracks (foldl (\<lambda>s n. updated n s) s ns) = AList.delete i (signaling_tracks s))
     \<and> next_addr (foldl (\<lambda>s n. updated n s) s ns) = next_addr s"
  using assms
proof (induction ns arbitrary: s)
  case Nil
  then show ?case by simp
next
  case (Cons k ns)
  let ?s' = "updated k s"
  have k: "k < length (attempts s)" "a_signaling (attempts s ! k) = a"
    "track_id (a_track (attempts s ! k)) = i"
    using Cons.prems(2) by simp_all
  have ek: "error (store s (a_signaling (attempts s ! k))) = Some err"
    using Cons.prems(1) k(2) by simp
  have R: "tracks ?s' = AList.delete i (tracks s)
     \<and> (signaling_tracks ?s' = signaling_tracks s
        \<or> signaling_tracks ?s' = AList.delete i (signaling_tracks s))
     \<and> next_addr ?s' = next_addr s"
    using updated_error_registry [OF ek Cons.prems(4)] k(3) by simp
  have it': "inv_tracks ?s'"
    using inv_tracks_delete [OF Cons.prems(4)] R by blast
  have at: "attempts ?s' = (attempts s)[k := failed_attempt err (attempts s ! k)]"
    using attempts_updated_error [OF k(1) ek] by (simp add: failed_attempt_def)
  have e': "error (store ?s' a) = Some err"
    using Cons.prems(1) by simp
  have kn: "k \<notin> set ns" and dn: "distinct ns"
    using Cons.prems(3) by simp_all
  have all': "\<forall>m \<in> set ns. m < length (attempts ?s') \<and> a_signaling (attempts ?s' ! m) = a
      \<and> track_id (a_track (attempts ?s' ! m)) = i"
  proof
    fix m assume m: "m \<in> set ns"
    then have "m \<noteq> k" using kn by blast
    then show "m < length (attempts ?s') \<and> a_signaling (attempts ?s' ! m) = a
      \<and> track_id (a_track (attempts ?s' ! m)) = i"
      using Cons.prems(2) m by (simp add: at)
  qed
  note IH = Cons.IH [OF e' all' dn it']
  have t: "tracks (foldl (\<lambda>s n. updated n s) ?s' ns) = AList.delete i (tracks s)"
    using IH R by (simp add: delete_idem)
  have sg: "signaling_tracks (foldl (\<lambda>s n. updated n s) ?s' ns) = signaling_tracks s
        \<or> signaling_tracks (foldl (\<lambda>s n. updated n s) ?s' ns) = AList.delete i (signaling_tracks s)"
    using IH R by (auto simp: delete_idem)
  have na: "next_addr (foldl (\<lambda>s n. updated n s) ?s' ns) = next_addr s"
    using IH R by simp
  show ?case using t sg na by simp
qed

lemma inv_timers_append:
  "inv_timers st \<Longrightarrow> timers st' = timers st @ evs \<Longrightarrow>
   \<forall>ev \<in> set evs. \<forall>t. ev \<noteq> trackAdded t \<and> ev \<noteq> trackRemoved t \<Longrightarrow> inv_timers st'"
  by (auto simp: inv_timers_def)


lemma store_foldl_updated [simp]: "store (foldl (\<lambda>s n. updated n s) st ns) = store st"
  by (induction ns arbitrary: st) simp_all

lemma live_same_record:
  assumes "emitting_inv A st" and "n < length (attempts st)" and "m < length (attempts st)"
    and "live A st (attempts st ! n)" and "live A st (attempts st ! m)"
    and "a_signaling (attempts st ! n) = a_signaling (attempts st ! m)"
  shows "a_track (attempts st ! n) = a_track (attempts st ! m)"
proof -
  note Fn = live_facts [OF assms(1) assms(2) assms(4)]
  note Fm = live_facts [OF assms(1) assms(3) assms(5)]
  have "inv_signaling st" using assms(1) by (simp add: emitting_inv_def)
  then have "track_id (a_track (attempts st ! n)) = track_id (a_track (attempts st ! m))"
    using Fn(2) Fm(2) assms(6) unfolding inv_signaling_def by metis
  then show ?thesis using Fn(1) Fm(1) by (metis option.inject)
qed

text \<open>
  An emission of \<open>'updated'\<close> by a record that has an error: the invariant is kept, the
  attempts that stay attached were attached to other records, the registry only shrinks.
\<close>

lemma inv_emit_updated_error:
  assumes "emitting_inv {a} s" and "error (store s a) = Some err"
  shows "emitting_inv {a} (emit_updated a s)
     \<and> length (attempts (emit_updated a s)) = length (attempts s)
     \<and> (\<forall>n < length (attempts s).
           a_track (attempts (emit_updated a s) ! n) = a_track (attempts s ! n)
           \<and> a_signaling (attempts (emit_updated a s) ! n) = a_signaling (attempts s ! n)
           \<and> (a_attached (attempts (emit_updated a s) ! n) \<longrightarrow>
                a_attached (attempts s ! n) \<and> a_signaling (attempts s ! n) \<noteq> a))
     \<and> (\<forall>j t. map_of (tracks (emit_updated a s)) j = Some t \<longrightarrow> map_of (tracks s) j = Some t)
     \<and> pubs_view (emit_updated a s) = pubs_view s
     \<and> store (emit_updated a s) = store s"
proof -
  let ?ns = "updated_listeners a s"
  let ?F = "foldl (\<lambda>s n. updated n s) s ?ns"
  have F: "emit_updated a s = ?F" by (simp add: emit_updated_def)
  have p: "distinct ?ns"
    "\<forall>k \<in> set ?ns. k < length (attempts s) \<and> a_signaling (attempts s ! k) = a"
    using updated_listeners_props [of a s] by blast+
  have att: "\<forall>k \<in> set ?ns. a_attached (attempts s ! k)"
    by (simp add: updated_listeners_def)
  have lv: "\<forall>k \<in> set ?ns. live {a} s (attempts s ! k)"
    using p(2) att by (simp add: live_def)
  note E = foldl_updated_error [OF assms(2) p(2) p(1)]
  have len: "length (attempts ?F) = length (attempts s)" using E by blast
  have nth: "\<forall>n < length (attempts s). attempts ?F ! n =
             (if n \<in> set ?ns then failed_attempt err (attempts s ! n) else attempts s ! n)"
    using E by blast
  have pv: "pubs_view ?F = pubs_view s" using E by blast
  have stF: "store ?F = store s" by simp
  have ti: "timers ?F = timers s
      @ map (\<lambda>k. trackPublicationFailed err (a_track (attempts s ! k))) ?ns"
    using E by blast
  have rel: "\<forall>n < length (attempts s).
           a_track (attempts ?F ! n) = a_track (attempts s ! n)
           \<and> a_signaling (attempts ?F ! n) = a_signaling (attempts s ! n)
           \<and> (a_attached (attempts ?F ! n) \<longrightarrow>
                a_attached (attempts s ! n) \<and> a_signaling (attempts s ! n) \<noteq> a)"
  proof (intro allI impI)
    fix n assume n: "n < length (attempts s)"
    show "a_track (attempts ?F ! n) = a_track (attempts s ! n)
           \<and> a_signaling (attempts ?F ! n) = a_signaling (attempts s ! n)
           \<and> (a_attached (attempts ?F ! n) \<longrightarrow>
                a_attached (attempts s ! n) \<and> a_signaling (attempts s ! n) \<noteq> a)"
    proof (cases "n \<in> set ?ns")
      case True
      then show ?thesis using nth n by (simp add: failed_attempt_def)
    next
      case False
      then have "attempts ?F ! n = attempts s ! n" using nth n by simp
      moreover have "a_attached (attempts s ! n) \<longrightarrow> a_signaling (attempts s ! n) \<noteq> a"
        using False n updated_listeners_mem [of n s a] by blast
      ultimately show ?thesis by simp
    qed
  qed
  have it: "inv_timers ?F"
    using inv_timers_append [of s ?F] assms(1) ti by (auto simp: emitting_inv_def)
  show ?thesis
  proof (cases "?ns = []")
    case True
    then have "?F = s" by simp
    then show ?thesis using assms(1) F rel by simp
  next
    case False
    then obtain k0 where k0: "k0 \<in> set ?ns" by (meson hd_in_set)
    let ?lt = "a_track (attempts s ! k0)"
    let ?i = "track_id ?lt"
    have k0p: "k0 < length (attempts s)" "a_signaling (attempts s ! k0) = a"
      "live {a} s (attempts s ! k0)"
      using k0 p(2) lv by blast+
    have same: "\<forall>k \<in> set ?ns. a_track (attempts s ! k) = ?lt"
    proof
      fix k assume k: "k \<in> set ?ns"
      then have "k < length (attempts s)" "a_signaling (attempts s ! k) = a"
        "live {a} s (attempts s ! k)"
        using p(2) lv by blast+
      then show "a_track (attempts s ! k) = ?lt"
        using live_same_record [OF assms(1), of k k0] k0p by simp
    qed
    have all_i: "\<forall>k \<in> set ?ns. k < length (attempts s) \<and> a_signaling (attempts s ! k) = a
           \<and> track_id (a_track (attempts s ! k)) = ?i"
      using p(2) same by simp
    have itr: "inv_tracks s" using assms(1) by (simp add: emitting_inv_def)
    note R = foldl_updated_error_registry [OF assms(2) all_i p(1) itr]
    have tr: "tracks ?F = AList.delete ?i (tracks s)" using R False by simp
    have sg: "signaling_tracks ?F = signaling_tracks s
        \<or> signaling_tracks ?F = AList.delete ?i (signaling_tracks s)" using R by blast
    have na: "next_addr ?F = next_addr s" using R by blast
    note F0 = live_facts [OF assms(1) k0p(1) k0p(3)]
    have reg0: "map_of (tracks s) ?i = Some ?lt" using F0(1) .
    have sig0: "map_of (signaling_tracks s) ?i = Some a" using F0(2) k0p(2) by simp
    have nop0: "\<forall>s' p'. map_of (trackPublications s) s' = Some p' \<longrightarrow> track p' \<noteq> ?lt"
      using F0(3) .
    have rel': "\<forall>n < length (attempts s).
           a_track (attempts ?F ! n) = a_track (attempts s ! n)
           \<and> a_signaling (attempts ?F ! n) = a_signaling (attempts s ! n)
           \<and> (a_attached (attempts ?F ! n) \<longrightarrow> a_attached (attempts s ! n))
           \<and> (a_attached (attempts ?F ! n) \<and> live {a} s (attempts s ! n) \<longrightarrow>
                track_id (a_track (attempts s ! n)) \<noteq> ?i)"
    proof (intro allI impI)
      fix n assume n: "n < length (attempts s)"
      have "a_attached (attempts ?F ! n) \<and> live {a} s (attempts s ! n) \<longrightarrow>
                track_id (a_track (attempts s ! n)) \<noteq> ?i"
      proof
        assume af: "a_attached (attempts ?F ! n) \<and> live {a} s (attempts s ! n)"
        then have an: "a_signaling (attempts s ! n) \<noteq> a"
          using rel n by blast
        have "map_of (signaling_tracks s) (track_id (a_track (attempts s ! n)))
            = Some (a_signaling (attempts s ! n))"
          using live_facts(2) [OF assms(1) n] af by blast
        then show "track_id (a_track (attempts s ! n)) \<noteq> ?i"
          using sig0 an by auto
      qed
      then show "a_track (attempts ?F ! n) = a_track (attempts s ! n)
           \<and> a_signaling (attempts ?F ! n) = a_signaling (attempts s ! n)
           \<and> (a_attached (attempts ?F ! n) \<longrightarrow> a_attached (attempts s ! n))
           \<and> (a_attached (attempts ?F ! n) \<and> live {a} s (attempts s ! n) \<longrightarrow>
                track_id (a_track (attempts s ! n)) \<noteq> ?i)"
        using rel n by blast
    qed
    have nopub: "\<forall>s' p'. map_of (trackPublications s) s' = Some p' \<longrightarrow> track_id (track p') \<noteq> ?i"
    proof (intro allI impI)
      fix s' p' assume h: "map_of (trackPublications s) s' = Some p'"
      have "inv_pubs s" using assms(1) by (simp add: emitting_inv_def)
      then have "map_of (tracks s) (track_id (track p')) = Some (track p')"
        using h unfolding inv_pubs_def by blast
      moreover have "track p' \<noteq> ?lt" using nop0 h by blast
      ultimately show "track_id (track p') \<noteq> ?i" using reg0 by auto
    qed
    have i: "emitting_inv {a} ?F"
      by (rule inv_remove_track [OF assms(1) tr sg pv na stF it len rel' nopub])
    have shrink: "\<forall>j t. map_of (tracks ?F) j = Some t \<longrightarrow> map_of (tracks s) j = Some t"
      using tr by (auto simp: delete_conv' split: if_splits)
    show ?thesis using i len rel shrink pv F by simp
  qed
qed



lemma getTrackPublication_update:
  "getTrackPublication (AList.update s p al) (LocalTrackV (track p)) \<noteq> None"
proof -
  have "map_of (AList.update s p al) s = Some p" by (simp add: update_conv')
  then have "(s, p) \<in> set (AList.update s p al)" by (rule map_of_SomeD)
  then have "p \<in> snd ` set (AList.update s p al)" by force
  then show ?thesis
    by (auto simp: getTrackPublication_None matches_LocalTrackV)
qed

lemma kind_update_maps:
  "publishedKindTracks k (publishedKindTracks_update k' f st)
     = (if k = k' then f (publishedKindTracks k st) else publishedKindTracks k st)"
  by (cases k; cases k') (simp_all add: publishedKindTracks_def publishedKindTracks_update_def)

lemma kind_maps_frame:
  "audioTrackPublications st' = audioTrackPublications st \<Longrightarrow>
   videoTrackPublications st' = videoTrackPublications st \<Longrightarrow>
   dataTrackPublications st' = dataTrackPublications st \<Longrightarrow>
   publishedKindTracks k st' = publishedKindTracks k st"
  by (simp add: publishedKindTracks_def split: Kind.splits)

lemma flat_kind_update [simp]:
  "trackPublications (publishedKindTracks_update k f st) = trackPublications st"
  by (simp add: publishedKindTracks_update_def split: Kind.splits)

text \<open>One run of the listener in the identifier branch, field by field.\<close>

lemma updated_sid_fields:
  assumes "k < length (attempts st)"
    and "error (store st (a_signaling (attempts st ! k))) = None"
    and "map_of (tracks st) (track_id (a_track (attempts st ! k))) \<noteq> None"
    and "sid (store st (a_signaling (attempts st ! k))) = Some s" and "s \<noteq> []"
  shows "tracks (updated k st) = tracks st
     \<and> signaling_tracks (updated k st) = signaling_tracks st
     \<and> next_addr (updated k st) = next_addr st
     \<and> (\<exists>pr. attempts (updated k st)
              = (attempts st)[k := (attempts st ! k)\<lparr>a_attached := False, a_promise := pr\<rparr>])
     \<and> (\<exists>evs. timers (updated k st) = timers st @ evs
              \<and> (\<forall>ev \<in> set evs. \<forall>t. ev \<noteq> trackAdded t \<and> ev \<noteq> trackRemoved t))
     \<and> (if getTrackPublication (trackPublications st) (LocalTrackV (a_track (attempts st ! k))) \<noteq> None
         then pubs_view (updated k st) = pubs_view st
         else trackPublications (updated k st)
                = AList.update s (asLocalTrackPublication (a_track (attempts st ! k)) s)
                    (trackPublications st)
              \<and> (\<forall>kd. publishedKindTracks kd (updated k st)
                    = (if kd = kind (a_track (attempts st ! k))
                       then AList.update s (asLocalTrackPublication (a_track (attempts st ! k)) s)
                              (publishedKindTracks kd st)
                       else publishedKindTracks kd st)))"
proof -
  let ?lt = "a_track (attempts st ! k)"
  let ?found = "getTrackPublication (trackPublications st) (LocalTrackV ?lt)"
  let ?p = "case ?found of Some q \<Rightarrow> q | None \<Rightarrow> asLocalTrackPublication ?lt s"
  let ?st1 = "removeListener_updated k st"
  let ?st2 = "case ?found of Some q \<Rightarrow> ?st1
                 | None \<Rightarrow> publishedKindTracks_update (kind ?lt)
                     (AList.update s ?p) (?st1\<lparr>trackPublications := AList.update s ?p (trackPublications ?st1)\<rparr>)"
  let ?st3 = "if signaling_state st = ''connected'' then setTimeout (trackPublished ?p) ?st2 else ?st2"
  have eq: "updated k st = settle k (Resolved ?p) ?st3"
    using updated_sid_eq [OF assms(2) assms(3) assms(4) assms(5) refl] by (simp add: Let_def)
  have frame1: "tracks ?st1 = tracks st" "signaling_tracks ?st1 = signaling_tracks st"
    "next_addr ?st1 = next_addr st" "timers ?st1 = timers st"
    "trackPublications ?st1 = trackPublications st" "pubs_view ?st1 = pubs_view st"
    by (simp_all add: removeListener_updated_def pubs_view_def)
  have ku: "\<And>kd f x. tracks (publishedKindTracks_update kd f x) = tracks x
      \<and> signaling_tracks (publishedKindTracks_update kd f x) = signaling_tracks x
      \<and> next_addr (publishedKindTracks_update kd f x) = next_addr x"
    by (simp add: publishedKindTracks_update_def split: Kind.splits)
  have frame2: "tracks ?st2 = tracks st \<and> signaling_tracks ?st2 = signaling_tracks st
      \<and> next_addr ?st2 = next_addr st \<and> timers ?st2 = timers st"
    by (cases ?found) (simp_all add: frame1 ku)
  have st: "\<And>ev x. tracks (setTimeout ev x) = tracks x
      \<and> signaling_tracks (setTimeout ev x) = signaling_tracks x
      \<and> next_addr (setTimeout ev x) = next_addr x \<and> pubs_view (setTimeout ev x) = pubs_view x"
    by (simp add: setTimeout_def do_effect_def pubs_view_def)
  have se: "\<And>v x. signaling_tracks (settle k v x) = signaling_tracks x
      \<and> next_addr (settle k v x) = next_addr x"
    by (simp add: settle_def)
  have r1: "tracks (updated k st) = tracks st
     \<and> signaling_tracks (updated k st) = signaling_tracks st
     \<and> next_addr (updated k st) = next_addr st"
    unfolding eq using frame2 by (simp add: st se)
  have a2: "attempts ?st2 = attempts ?st1"
    by (cases ?found) (simp_all add: attempts_kind_update)
  have a3: "attempts ?st3 = (attempts st)[k := (attempts st ! k)\<lparr>a_attached := False\<rparr>]"
    using assms(1) a2 by (simp add: attempts_setTimeout removeListener_updated_def)
  have r2: "\<exists>pr. attempts (updated k st)
              = (attempts st)[k := (attempts st ! k)\<lparr>a_attached := False, a_promise := pr\<rparr>]"
  proof (cases "a_promise (attempts st ! k) = Pending")
    case True
    then have "attempts (settle k (Resolved ?p) ?st3)
        = (attempts st)[k := (attempts st ! k)\<lparr>a_attached := False, a_promise := Resolved ?p\<rparr>]"
      using assms(1) a3 by (simp add: settle_def)
    then show ?thesis unfolding eq by blast
  next
    case False
    then have "attempts (settle k (Resolved ?p) ?st3)
        = (attempts st)[k := (attempts st ! k)\<lparr>a_attached := False,
              a_promise := a_promise (attempts st ! k)\<rparr>]"
      using assms(1) a3 by (simp add: settle_def)
    then show ?thesis unfolding eq by blast
  qed
  have r3: "\<exists>evs. timers (updated k st) = timers st @ evs
              \<and> (\<forall>ev \<in> set evs. \<forall>t. ev \<noteq> trackAdded t \<and> ev \<noteq> trackRemoved t)"
  proof (cases "signaling_state st = ''connected''")
    case True
    then have "timers (updated k st) = timers st @ [trackPublished ?p]"
      unfolding eq using frame2 by simp
    then show ?thesis by (intro exI [of _ "[trackPublished ?p]"]) simp
  next
    case False
    then have "timers (updated k st) = timers st @ []"
      unfolding eq using frame2 by simp
    then show ?thesis by (intro exI [of _ "[]"]) simp
  qed
  have pv3: "pubs_view (updated k st) = pubs_view ?st2"
    unfolding eq by (simp add: st)
  have r4: "if ?found \<noteq> None
         then pubs_view (updated k st) = pubs_view st
         else trackPublications (updated k st)
                = AList.update s (asLocalTrackPublication ?lt s) (trackPublications st)
              \<and> (\<forall>kd. publishedKindTracks kd (updated k st)
                    = (if kd = kind ?lt
                       then AList.update s (asLocalTrackPublication ?lt s) (publishedKindTracks kd st)
                       else publishedKindTracks kd st))"
  proof (cases ?found)
    case (Some q)
    then show ?thesis using pv3 frame1(6) by simp
  next
    case None
    let ?q = "asLocalTrackPublication ?lt s"
    have s2: "?st2 = publishedKindTracks_update (kind ?lt) (AList.update s ?q)
        (?st1\<lparr>trackPublications := AList.update s ?q (trackPublications ?st1)\<rparr>)"
      using None by simp
    have f: "trackPublications ?st2 = AList.update s ?q (trackPublications st)"
      by (simp only: s2 flat_kind_update) (simp add: frame1)
    have km1: "\<And>kd. publishedKindTracks kd
        (?st1\<lparr>trackPublications := AList.update s ?q (trackPublications ?st1)\<rparr>)
          = publishedKindTracks kd st"
      by (rule kind_maps_frame) (simp_all add: removeListener_updated_def)
    have km: "\<forall>kd. publishedKindTracks kd ?st2
         = (if kd = kind ?lt then AList.update s ?q (publishedKindTracks kd st)
            else publishedKindTracks kd st)"
      by (simp only: s2 kind_update_maps km1) simp
    have "trackPublications (updated k st) = trackPublications ?st2"
      using flat_of_view [OF pv3] .
    moreover have "\<forall>kd. publishedKindTracks kd (updated k st) = publishedKindTracks kd ?st2"
      using kind_maps_of_view [OF pv3] by blast
    ultimately show ?thesis using None f km by simp
  qed
  show ?thesis using r1 r2 r3 r4 by blast
qed


lemma foldl_updated_waiting:
  assumes "error (store s a) = None"
    and "sid (store s a) = None \<or> sid (store s a) = Some []"
    and "\<forall>k \<in> set ns. a_signaling (attempts s ! k) = a
           \<and> map_of (tracks s) (track_id (a_track (attempts s ! k))) \<noteq> None"
  shows "foldl (\<lambda>s n. updated n s) s ns = s"
  using assms
proof (induction ns)
  case Nil
  then show ?case by simp
next
  case (Cons k ns)
  have "updated k s = s"
    using Cons.prems by (intro updated_waiting) simp_all
  then show ?case using Cons by simp
qed

text \<open>
  An emission of \<open>'updated'\<close> by a record without error that has a non-empty identifier,
  to listeners that all belong to the registered track \<open>lt\<close>.
\<close>

lemma foldl_updated_sid:
  assumes "error (store z a) = None" and "sid (store z a) = Some s" and "s \<noteq> []"
    and "\<forall>k \<in> set ns. k < length (attempts z) \<and> a_signaling (attempts z ! k) = a
           \<and> a_track (attempts z ! k) = lt"
    and "map_of (tracks z) (track_id lt) \<noteq> None" and "distinct ns"
    and "inv_timers z"
  shows "tracks (foldl (\<lambda>s n. updated n s) z ns) = tracks z
     \<and> signaling_tracks (foldl (\<lambda>s n. updated n s) z ns) = signaling_tracks z
     \<and> next_addr (foldl (\<lambda>s n. updated n s) z ns) = next_addr z
     \<and> length (attempts (foldl (\<lambda>s n. updated n s) z ns)) = length (attempts z)
     \<and> (\<forall>n < length (attempts z).
           a_track (attempts (foldl (\<lambda>s n. updated n s) z ns) ! n) = a_track (attempts z ! n)
           \<and> a_signaling (attempts (foldl (\<lambda>s n. updated n s) z ns) ! n)
               = a_signaling (attempts z ! n)
           \<and> (a_attached (attempts (foldl (\<lambda>s n. updated n s) z ns) ! n)
                \<longrightarrow> a_attached (attempts z ! n) \<and> n \<notin> set ns))
     \<and> inv_timers (foldl (\<lambda>s n. updated n s) z ns)
     \<and> (if ns = [] \<or> getTrackPublication (trackPublications z) (LocalTrackV lt) \<noteq> None
         then pubs_view (foldl (\<lambda>s n. updated n s) z ns) = pubs_view z
         else trackPublications (foldl (\<lambda>s n. updated n s) z ns)
                = AList.update s (asLocalTrackPublication lt s) (trackPublications z)
              \<and> (\<forall>kd. publishedKindTracks kd (foldl (\<lambda>s n. updated n s) z ns)
                    = (if kd = kind lt
                       then AList.update s (asLocalTrackPublication lt s)
                              (publishedKindTracks kd z)
                       else publishedKindTracks kd z)))"
  using assms
proof (induction ns arbitrary: z)
  case Nil
  then show ?case by simp
next
  case (Cons k ns)
  let ?s1 = "updated k z"
  let ?F = "foldl (\<lambda>s n. updated n s) ?s1 ns"
  have k: "k < length (attempts z)" "a_signaling (attempts z ! k) = a"
    "a_track (attempts z ! k) = lt"
    using Cons.prems(4) by simp_all
  have U: "tracks ?s1 = tracks z
     \<and> signaling_tracks ?s1 = signaling_tracks z
     \<and> next_addr ?s1 = next_addr z
     \<and> (\<exists>pr. attempts ?s1
              = (attempts z)[k := (attempts z ! k)\<lparr>a_attached := False, a_promise := pr\<rparr>])
     \<and> (\<exists>evs. timers ?s1 = timers z @ evs
              \<and> (\<forall>ev \<in> set evs. \<forall>t. ev \<noteq> trackAdded t \<and> ev \<noteq> trackRemoved t))
     \<and> (if getTrackPublication (trackPublications z) (LocalTrackV lt) \<noteq> None
         then pubs_view ?s1 = pubs_view z
         else trackPublications ?s1
                = AList.update s (asLocalTrackPublication lt s) (trackPublications z)
              \<and> (\<forall>kd. publishedKindTracks kd ?s1
                    = (if kd = kind lt
                       then AList.update s (asLocalTrackPublication lt s)
                              (publishedKindTracks kd z)
                       else publishedKindTracks kd z)))"
    using updated_sid_fields [of k z s] k Cons.prems(1,2,3,5) by simp
  obtain pr where at: "attempts ?s1
      = (attempts z)[k := (attempts z ! k)\<lparr>a_attached := False, a_promise := pr\<rparr>]"
    using U by blast
  obtain evs where ti: "timers ?s1 = timers z @ evs"
    "\<forall>ev \<in> set evs. \<forall>t. ev \<noteq> trackAdded t \<and> ev \<noteq> trackRemoved t"
    using U by blast
  have it1: "inv_timers ?s1"
    by (rule inv_timers_append [OF Cons.prems(7) ti(1) ti(2)])
  have kn: "k \<notin> set ns" and dn: "distinct ns"
    using Cons.prems(6) by simp_all
  have e1: "error (store ?s1 a) = None" "sid (store ?s1 a) = Some s"
    using Cons.prems(1,2) by simp_all
  have all1: "\<forall>m \<in> set ns. m < length (attempts ?s1) \<and> a_signaling (attempts ?s1 ! m) = a
           \<and> a_track (attempts ?s1 ! m) = lt"
  proof
    fix m assume m: "m \<in> set ns"
    then have "m \<noteq> k" using kn by blast
    then show "m < length (attempts ?s1) \<and> a_signaling (attempts ?s1 ! m) = a
           \<and> a_track (attempts ?s1 ! m) = lt"
      using Cons.prems(4) m by (simp add: at)
  qed
  have reg1: "map_of (tracks ?s1) (track_id lt) \<noteq> None"
    using U Cons.prems(5) by simp
  note IH = Cons.IH [OF e1(1) e1(2) Cons.prems(3) all1 reg1 dn it1]
  have found1: "getTrackPublication (trackPublications ?s1) (LocalTrackV lt) \<noteq> None"
  proof (cases "getTrackPublication (trackPublications z) (LocalTrackV lt) \<noteq> None")
    case True
    then have "trackPublications ?s1 = trackPublications z"
      using U flat_of_view by metis
    then show ?thesis using True by simp
  next
    case False
    then have "trackPublications ?s1
        = AList.update s (asLocalTrackPublication lt s) (trackPublications z)"
      using U by presburger
    then show ?thesis
      using getTrackPublication_update [of s "asLocalTrackPublication lt s" "trackPublications z"]
      by (simp add: asLocalTrackPublication_def)
  qed
  have pvF: "pubs_view ?F = pubs_view ?s1"
    using IH found1 by presburger
  have r1: "tracks ?F = tracks z \<and> signaling_tracks ?F = signaling_tracks z
      \<and> next_addr ?F = next_addr z \<and> length (attempts ?F) = length (attempts z)"
    using IH U by (simp add: at)
  have r2: "\<forall>n < length (attempts z).
           a_track (attempts ?F ! n) = a_track (attempts z ! n)
           \<and> a_signaling (attempts ?F ! n) = a_signaling (attempts z ! n)
           \<and> (a_attached (attempts ?F ! n) \<longrightarrow> a_attached (attempts z ! n) \<and> n \<notin> set (k # ns))"
  proof (intro allI impI)
    fix n assume n: "n < length (attempts z)"
    then have n1: "n < length (attempts ?s1)" by (simp add: at)
    have I: "a_track (attempts ?F ! n) = a_track (attempts ?s1 ! n)
           \<and> a_signaling (attempts ?F ! n) = a_signaling (attempts ?s1 ! n)
           \<and> (a_attached (attempts ?F ! n) \<longrightarrow> a_attached (attempts ?s1 ! n) \<and> n \<notin> set ns)"
      using IH n1 by blast
    show "a_track (attempts ?F ! n) = a_track (attempts z ! n)
           \<and> a_signaling (attempts ?F ! n) = a_signaling (attempts z ! n)
           \<and> (a_attached (attempts ?F ! n) \<longrightarrow> a_attached (attempts z ! n) \<and> n \<notin> set (k # ns))"
      using I n by (cases "n = k") (simp_all add: at)
  qed
  have r3: "inv_timers ?F" using IH by blast
  have r4: "if getTrackPublication (trackPublications z) (LocalTrackV lt) \<noteq> None
         then pubs_view ?F = pubs_view z
         else trackPublications ?F
                = AList.update s (asLocalTrackPublication lt s) (trackPublications z)
              \<and> (\<forall>kd. publishedKindTracks kd ?F
                    = (if kd = kind lt
                       then AList.update s (asLocalTrackPublication lt s)
                              (publishedKindTracks kd z)
                       else publishedKindTracks kd z))"
  proof (cases "getTrackPublication (trackPublications z) (LocalTrackV lt) \<noteq> None")
    case True
    then have "pubs_view ?s1 = pubs_view z" using U by presburger
    then show ?thesis using True pvF by simp
  next
    case False
    then have u: "trackPublications ?s1
                = AList.update s (asLocalTrackPublication lt s) (trackPublications z)
              \<and> (\<forall>kd. publishedKindTracks kd ?s1
                    = (if kd = kind lt
                       then AList.update s (asLocalTrackPublication lt s)
                              (publishedKindTracks kd z)
                       else publishedKindTracks kd z))"
      using U by presburger
    have "trackPublications ?F = trackPublications ?s1"
      using flat_of_view [OF pvF] .
    moreover have "\<forall>kd. publishedKindTracks kd ?F = publishedKindTracks kd ?s1"
      using kind_maps_of_view [OF pvF] by blast
    ultimately show ?thesis using False u by simp
  qed
  show ?case
    using r1 r2 r3 r4 by simp
qed



lemma inv_publishFailed:
  assumes "participant_inv st"
  shows "participant_inv (publishFailed a err st)
     \<and> length (attempts (publishFailed a err st)) = length (attempts st)
     \<and> (\<forall>n < length (attempts st).
           a_track (attempts (publishFailed a err st) ! n) = a_track (attempts st ! n)
           \<and> a_signaling (attempts (publishFailed a err st) ! n) = a_signaling (attempts st ! n)
           \<and> (a_attached (attempts (publishFailed a err st) ! n) \<longrightarrow> a_attached (attempts st ! n))
           \<and> (live {} (publishFailed a err st) (attempts (publishFailed a err st) ! n) \<longrightarrow>
                live {} st (attempts st ! n) \<and> a_signaling (attempts st ! n) \<noteq> a))
     \<and> (\<forall>j t. map_of (tracks (publishFailed a err st)) j = Some t \<longrightarrow> map_of (tracks st) j = Some t)
     \<and> pubs_view (publishFailed a err st) = pubs_view st
     \<and> (\<forall>b. b \<noteq> a \<longrightarrow> store (publishFailed a err st) b = store st b)"
proof (cases "submitting (store st a)")
  case False
  then have eq: "publishFailed a err st = st" by (simp add: publishFailed_def)
  have "\<forall>n < length (attempts st). live {} st (attempts st ! n) \<longrightarrow> a_signaling (attempts st ! n) \<noteq> a"
    using False by (auto simp: live_def)
  then show ?thesis using assms eq by simp
next
  case sub: True
  let ?s = "st\<lparr>store := (store st)(a := (store st a)\<lparr>error := Some err\<rparr>)\<rparr>"
  let ?F = "emit_updated a ?s"
  have eq: "publishFailed a err st = ?F" using sub by (simp add: publishFailed_def)
  have i: "emitting_inv {a} ?s" using assms sub by (rule inv_store_mark)
  have e: "error (store ?s a) = Some err" by simp
  have pv: "pubs_view ?s = pubs_view st" by (simp add: pubs_view_def)
  note E = inv_emit_updated_error [OF i e]
  have iF: "participant_inv ?F"
    using E emitting_inv_weaken [of "{a}" ?F "{}"] by (simp add: participant_inv_def)
  have len: "length (attempts ?F) = length (attempts st)" using E by simp
  have stF: "store ?F = store ?s" using E by blast
  have rel: "\<forall>n < length (attempts st).
           a_track (attempts ?F ! n) = a_track (attempts st ! n)
           \<and> a_signaling (attempts ?F ! n) = a_signaling (attempts st ! n)
           \<and> (a_attached (attempts ?F ! n) \<longrightarrow>
                a_attached (attempts st ! n) \<and> a_signaling (attempts st ! n) \<noteq> a)"
    using E by simp
  have rel2: "\<forall>n < length (attempts st).
           a_track (attempts ?F ! n) = a_track (attempts st ! n)
           \<and> a_signaling (attempts ?F ! n) = a_signaling (attempts st ! n)
           \<and> (a_attached (attempts ?F ! n) \<longrightarrow> a_attached (attempts st ! n))
           \<and> (live {} ?F (attempts ?F ! n) \<longrightarrow>
                live {} st (attempts st ! n) \<and> a_signaling (attempts st ! n) \<noteq> a)"
  proof (intro allI impI)
    fix n assume n: "n < length (attempts st)"
    note r = rel [rule_format, OF n]
    have "live {} ?F (attempts ?F ! n) \<longrightarrow>
                live {} st (attempts st ! n) \<and> a_signaling (attempts st ! n) \<noteq> a"
    proof
      assume l: "live {} ?F (attempts ?F ! n)"
      then have at: "a_attached (attempts st ! n)" and ne: "a_signaling (attempts st ! n) \<noteq> a"
        using r by (auto simp: live_def)
      have "submitting (store ?F (a_signaling (attempts st ! n)))"
        using l r by (simp add: live_def)
      then have "submitting (store st (a_signaling (attempts st ! n)))"
        using ne by (simp add: stF)
      then show "live {} st (attempts st ! n) \<and> a_signaling (attempts st ! n) \<noteq> a"
        using at ne by (simp add: live_def)
    qed
    then show "a_track (attempts ?F ! n) = a_track (attempts st ! n)
           \<and> a_signaling (attempts ?F ! n) = a_signaling (attempts st ! n)
           \<and> (a_attached (attempts ?F ! n) \<longrightarrow> a_attached (attempts st ! n))
           \<and> (live {} ?F (attempts ?F ! n) \<longrightarrow>
                live {} st (attempts st ! n) \<and> a_signaling (attempts st ! n) \<noteq> a)"
      using r by blast
  qed
  have shrink: "\<forall>j t. map_of (tracks ?F) j = Some t \<longrightarrow> map_of (tracks st) j = Some t"
    using E by simp
  have pvF: "pubs_view ?F = pubs_view st" using E pv by simp
  have so: "\<forall>b. b \<noteq> a \<longrightarrow> store ?F b = store st b" by (simp add: stF)
  show ?thesis
    unfolding eq using iF len rel2 shrink pvF so by blast
qed


text \<open>
  The signaling collaborator assigns an identifier: one that no publication uses, or to
  a record on which the assignment has no effect.
\<close>

lemma inv_setSid:
  assumes "participant_inv st"
    and "map_of (trackPublications st) s = None \<or> \<not> submitting (store st a)"
  shows "participant_inv (setSid a s st)"
proof (cases "submitting (store st a)")
  case False
  then show ?thesis using assms(1) by (simp add: setSid_def)
next
  case sub: True
  let ?s = "st\<lparr>store := (store st)(a := (store st a)\<lparr>sid := Some s\<rparr>)\<rparr>"
  let ?ns = "updated_listeners a ?s"
  let ?F = "foldl (\<lambda>s n. updated n s) ?s ?ns"
  have i: "emitting_inv {a} ?s" using assms(1) sub by (rule inv_store_mark)
  have w: "\<And>x. emitting_inv {a} x \<Longrightarrow> participant_inv x"
    using emitting_inv_weaken [of "{a}" _ "{}"] by (simp add: participant_inv_def)
  have F: "setSid a s st = ?F" using sub by (simp add: setSid_def emit_updated_def)
  have p: "distinct ?ns"
    "\<forall>k \<in> set ?ns. k < length (attempts ?s) \<and> a_signaling (attempts ?s ! k) = a"
    using updated_listeners_props [of a ?s] by blast+
  have att: "\<forall>k \<in> set ?ns. a_attached (attempts ?s ! k)"
    by (simp add: updated_listeners_def)
  have lv: "\<forall>k \<in> set ?ns. live {a} ?s (attempts ?s ! k)"
    using p(2) att by (simp add: live_def)
  have e: "error (store ?s a) = None" using sub by (simp add: submitting_def)
  have sd: "sid (store ?s a) = Some s" by simp
  show ?thesis
  proof (cases "s = [] \<or> ?ns = []")
    case True
    have "?F = ?s"
    proof (cases "?ns = []")
      case True
      then show ?thesis by simp
    next
      case False
      then have se: "sid (store ?s a) = None \<or> sid (store ?s a) = Some []"
        using True by simp
      have "\<forall>k \<in> set ?ns. a_signaling (attempts ?s ! k) = a
         \<and> map_of (tracks ?s) (track_id (a_track (attempts ?s ! k))) \<noteq> None"
      proof
        fix k assume k: "k \<in> set ?ns"
        then have kp: "k < length (attempts ?s)" "a_signaling (attempts ?s ! k) = a"
          "live {a} ?s (attempts ?s ! k)"
          using p(2) lv by blast+
        show "a_signaling (attempts ?s ! k) = a
         \<and> map_of (tracks ?s) (track_id (a_track (attempts ?s ! k))) \<noteq> None"
          using live_facts(1) [OF i kp(1) kp(3)] kp(2) by simp
      qed
      then show ?thesis
        by (rule foldl_updated_waiting [OF e se])
    qed
    then show ?thesis using w [OF i] F by simp
  next
    case False
    then have ne: "s \<noteq> []" "?ns \<noteq> []" by simp_all
    then obtain k0 where k0: "k0 \<in> set ?ns" by (meson hd_in_set)
    let ?lt = "a_track (attempts ?s ! k0)"
    have k0p: "k0 < length (attempts ?s)" "a_signaling (attempts ?s ! k0) = a"
      "live {a} ?s (attempts ?s ! k0)"
      using k0 p(2) lv by blast+
    have same: "\<forall>k \<in> set ?ns. k < length (attempts ?s) \<and> a_signaling (attempts ?s ! k) = a
         \<and> a_track (attempts ?s ! k) = ?lt"
    proof
      fix k assume k: "k \<in> set ?ns"
      then have kp: "k < length (attempts ?s)" "a_signaling (attempts ?s ! k) = a"
        "live {a} ?s (attempts ?s ! k)"
        using p(2) lv by blast+
      have eqs: "a_signaling (attempts ?s ! k) = a_signaling (attempts ?s ! k0)"
        by (simp only: kp(2) k0p(2))
      have "a_track (attempts ?s ! k) = ?lt"
        by (rule live_same_record [OF i kp(1) k0p(1) kp(3) k0p(3) eqs])
      then show "k < length (attempts ?s) \<and> a_signaling (attempts ?s ! k) = a
         \<and> a_track (attempts ?s ! k) = ?lt" using kp(1,2) by blast
    qed
    note F0 = live_facts [OF i k0p(1) k0p(3)]
    have reg0: "map_of (tracks ?s) (track_id ?lt) = Some ?lt" using F0(1) .
    have sig0: "map_of (signaling_tracks ?s) (track_id ?lt) = Some a"
      using F0(2) by (simp only: k0p(2))
    have nop0: "\<forall>s' p'. map_of (trackPublications ?s) s' = Some p' \<longrightarrow> track p' \<noteq> ?lt"
      using F0(3) .
    have reg0': "map_of (tracks ?s) (track_id ?lt) \<noteq> None" using reg0 by simp
    have d: "distinct (map fst (trackPublications ?s))"
      using i by (simp add: emitting_inv_def inv_pubs_def)
    have nf: "getTrackPublication (trackPublications ?s) (LocalTrackV ?lt) = None"
      using nop0 getTrackPublication_LocalTrackV_None [OF d] by blast
    have it: "inv_timers ?s" using i by (simp add: emitting_inv_def)
    note S = foldl_updated_sid [OF e sd ne(1) same reg0' p(1) it]
    have tr: "tracks ?F = tracks ?s" and sg: "signaling_tracks ?F = signaling_tracks ?s"
      and na: "next_addr ?F = next_addr ?s" and len: "length (attempts ?F) = length (attempts ?s)"
      and itF: "inv_timers ?F"
      using S by blast+
    have stF: "store ?F = store ?s" by simp
    have rel: "\<forall>n < length (attempts ?s).
         a_track (attempts ?F ! n) = a_track (attempts ?s ! n)
         \<and> a_signaling (attempts ?F ! n) = a_signaling (attempts ?s ! n)
         \<and> (a_attached (attempts ?F ! n) \<longrightarrow> a_attached (attempts ?s ! n) \<and> n \<notin> set ?ns)"
      using S by blast
    have pubs: "trackPublications ?F
              = AList.update s (asLocalTrackPublication ?lt s) (trackPublications ?s)
            \<and> (\<forall>kd. publishedKindTracks kd ?F
                  = (if kd = kind ?lt
                     then AList.update s (asLocalTrackPublication ?lt s)
                            (publishedKindTracks kd ?s)
                     else publishedKindTracks kd ?s))"
      using S ne(2) nf by presburger
    have fl: "trackPublications ?F
        = AList.update s \<lparr>track = ?lt, trackSid = s\<rparr> (trackPublications ?s)"
      using pubs by (simp add: asLocalTrackPublication_def)
    have km: "\<forall>kd. publishedKindTracks kd ?F
                  = (if kd = kind ?lt
                     then AList.update s \<lparr>track = ?lt, trackSid = s\<rparr> (publishedKindTracks kd ?s)
                     else publishedKindTracks kd ?s)"
      using pubs by (simp add: asLocalTrackPublication_def)
    have fresh: "map_of (trackPublications ?s) s = None" using assms(2) sub by simp
    have rel': "\<forall>n < length (attempts ?s).
         a_track (attempts ?F ! n) = a_track (attempts ?s ! n)
         \<and> a_signaling (attempts ?F ! n) = a_signaling (attempts ?s ! n)
         \<and> (a_attached (attempts ?F ! n) \<longrightarrow> a_attached (attempts ?s ! n))
         \<and> (a_attached (attempts ?F ! n) \<and> live {a} ?s (attempts ?s ! n) \<longrightarrow>
              a_track (attempts ?s ! n) \<noteq> ?lt)"
    proof (intro allI impI)
      fix n assume n: "n < length (attempts ?s)"
      have "a_attached (attempts ?F ! n) \<and> live {a} ?s (attempts ?s ! n) \<longrightarrow>
              a_track (attempts ?s ! n) \<noteq> ?lt"
      proof
        assume af: "a_attached (attempts ?F ! n) \<and> live {a} ?s (attempts ?s ! n)"
        then have an: "a_attached (attempts ?s ! n)" "n \<notin> set ?ns"
          using rel n by blast+
        then have "a_signaling (attempts ?s ! n) \<noteq> a"
          using n updated_listeners_mem [of n ?s a] by blast
        moreover have "map_of (signaling_tracks ?s) (track_id (a_track (attempts ?s ! n)))
            = Some (a_signaling (attempts ?s ! n))"
          using live_facts(2) [OF i n] af by blast
        ultimately show "a_track (attempts ?s ! n) \<noteq> ?lt"
          using sig0 by auto
      qed
      then show "a_track (attempts ?F ! n) = a_track (attempts ?s ! n)
         \<and> a_signaling (attempts ?F ! n) = a_signaling (attempts ?s ! n)
         \<and> (a_attached (attempts ?F ! n) \<longrightarrow> a_attached (attempts ?s ! n))
         \<and> (a_attached (attempts ?F ! n) \<and> live {a} ?s (attempts ?s ! n) \<longrightarrow>
              a_track (attempts ?s ! n) \<noteq> ?lt)"
        using rel n by blast
    qed
    have "emitting_inv {a} ?F"
      by (rule inv_new_pub [OF i fresh reg0 nop0 fl km tr sg na itF len rel' stF])
    then show ?thesis using F w by simp
  qed
qed


lemma addTrack'_fields:
  assumes "map_of (tracks st) (track_id t) = None"
  shows "fst (addTrack' t st) = Some t
     \<and> tracks (snd (addTrack' t st)) = AList.update (track_id t) t (tracks st)
     \<and> ((signaling_tracks (snd (addTrack' t st)) = signaling_tracks st
          \<and> next_addr (snd (addTrack' t st)) = next_addr st)
        \<or> (signaling_tracks (snd (addTrack' t st))
              = AList.update (track_id t) (next_addr st) (signaling_tracks st)
            \<and> next_addr (snd (addTrack' t st)) = Suc (next_addr st)))
     \<and> pubs_view (snd (addTrack' t st)) = pubs_view st
     \<and> timers (snd (addTrack' t st)) = timers st
     \<and> attempts (snd (addTrack' t st)) = attempts st
     \<and> (\<forall>b < next_addr st. store (snd (addTrack' t st)) b = store st b)"
  using assms
  by (simp add: addTrack'_def emit_def do_effect_def localTrackAdded_def signaling_addTrack_def
      Let_def pubs_view_def)

lemma inv_addTrack':
  assumes "participant_inv st"
  shows "participant_inv (snd (addTrack' t st))"
proof (cases "map_of (tracks st) (track_id t)")
  case None
  note A = addTrack'_fields [OF None]
  have e: "emitting_inv {} st" using assms by (simp add: participant_inv_def)
  have "emitting_inv {} (snd (addTrack' t st))"
    by (rule inv_add_track [OF e None]) (use A in blast)+
  then show ?thesis by (simp add: participant_inv_def)
next
  case (Some t')
  then show ?thesis using assms by (simp add: addTrack'_def)
qed

lemma inv_getOrCreate:
  assumes "participant_inv st" and "map_of (tracks st) (track_id lt) = Some lt"
  shows "participant_inv (snd (getOrCreateLocalTrackPublication lt st))"
proof (cases "getTrackPublication (trackPublications st) (LocalTrackV lt)")
  case (Some p)
  then show ?thesis using assms(1) by (simp add: getOrCreateLocalTrackPublication_def)
next
  case None
  show ?thesis
  proof (cases "map_of (signaling_tracks st) (track_id lt)")
    case None' : None
    then show ?thesis using None assms(1) by (simp add: getOrCreateLocalTrackPublication_def)
  next
    case (Some a)
    let ?st' = "st\<lparr>attempts := attempts st @
                     [\<lparr>a_track = lt, a_signaling = a, a_attached = True, a_promise = Pending\<rparr>]\<rparr>"
    have eq: "snd (getOrCreateLocalTrackPublication lt st) = ?st'"
      using None Some by (simp add: getOrCreateLocalTrackPublication_def)
    have e: "emitting_inv {} st" using assms(1) by (simp add: participant_inv_def)
    have "emitting_inv {} ?st'"
      by (rule inv_new_attempt [OF e _ assms(2) Some None]) (simp_all add: pubs_view_def)
    then show ?thesis using eq by (simp add: participant_inv_def)
  qed
qed

lemma inv_asLocalTrack:
  assumes "participant_inv st" and "asLocalTrack v st = Return (t, st0)"
  shows "participant_inv st0"
proof (cases v)
  case (MediaStreamTrackV m)
  then have "st0 = st\<lparr>next_ref := Suc (next_ref st)\<rparr>"
    using assms(2) by (simp add: asLocalTrack_def)
  then show ?thesis
    using inv_same [of "{}" st st0] assms(1) by (simp add: pubs_view_def participant_inv_def)
qed (use assms in \<open>simp_all add: asLocalTrack_def\<close>)

lemma inv_publishTrack:
  assumes "participant_inv st"
  shows "participant_inv (snd (publishTrack v st))"
proof (cases "getTrackPublication (trackPublications st) v")
  case (Some p)
  then show ?thesis using assms by (simp add: publishTrack_def)
next
  case None
  show ?thesis
  proof (cases "asLocalTrack v st")
    case (Throw err)
    with None show ?thesis using assms by (simp add: publishTrack_def)
  next
    case (Return r)
    obtain t st0 where r: "r = (t, st0)" by (cases r)
    have i0: "participant_inv st0" using inv_asLocalTrack [OF assms] Return r by blast
    show ?thesis
    proof (cases "map_of (tracks st0) (track_id t)")
      case None' : None
      note A = addTrack'_fields [OF None']
      have i1: "participant_inv (snd (addTrack' t st0))" by (rule inv_addTrack' [OF i0])
      have reg: "map_of (tracks (snd (addTrack' t st0))) (track_id t) = Some t"
        using A by (simp add: update_conv')
      obtain added st1 where ad: "addTrack' t st0 = (added, st1)"
        by (cases "addTrack' t st0")
      have ad': "added = Some t" "st1 = snd (addTrack' t st0)"
        using A ad by simp_all
      have "publishTrack v st = getOrCreateLocalTrackPublication t st1"
        using None Return r ad ad'(1) by (simp add: publishTrack_def)
      then have "publishTrack v st = getOrCreateLocalTrackPublication t (snd (addTrack' t st0))"
        using ad'(2) by simp
      then show ?thesis using inv_getOrCreate [OF i1 reg] by simp
    next
      case (Some t')
      have "inv_tracks st0" using i0 by (simp add: participant_inv_iff)
      then have "track_id t' = track_id t" using Some by (simp add: inv_tracks_def)
      then have reg: "map_of (tracks st0) (track_id t') = Some t'" using Some by simp
      have "publishTrack v st = getOrCreateLocalTrackPublication t' st0"
        using None Return r Some by (simp add: publishTrack_def addTrack'_def)
      then show ?thesis using inv_getOrCreate [OF i0 reg] by simp
    qed
  qed
qed

lemma inv_publishTrack_map: "participant_inv st \<Longrightarrow> participant_inv (snd (publishTrack_map vs st))"
proof (induction vs arbitrary: st)
  case Nil
  then show ?case by simp
next
  case (Cons v vs)
  obtain r st1 where p: "publishTrack v st = (r, st1)" by (cases "publishTrack v st")
  have st1: "participant_inv st1"
    using inv_publishTrack [OF Cons.prems, of v] p by simp
  obtain c st2 where m: "publishTrack_map vs st1 = (c, st2)" by (cases "publishTrack_map vs st1")
  have st2: "participant_inv st2"
    using Cons.IH [OF st1] m by simp
  show ?case
    using p m st1 st2 by (simp split: publish_result.splits completion.splits)
qed

lemma inv_publishTracks: "participant_inv st \<Longrightarrow> participant_inv (snd (publishTracks vs st))"
  by (simp add: publishTracks_def inv_publishTrack_map split: jsarg.splits)

lemma kind_maps_flat_update:
  "publishedKindTracks kd (x\<lparr>trackPublications := y\<rparr>) = publishedKindTracks kd x"
  by (simp add: publishedKindTracks_def split: Kind.splits)

lemma id_of_track_id:
  assumes "inv_tracks st" and "map_of (tracks st) i = Some lt"
  shows "track_id lt = i"
  using assms by (simp add: inv_tracks_def)

lemma inv_unpublishTrack:
  assumes "participant_inv st"
  shows "participant_inv (snd (unpublishTrack v st))"
proof (cases "id_of v")
  case None
  then show ?thesis
    using assms by (simp add: unpublishTrack_def split: completion.splits)
next
  case (Some i)
  show ?thesis
  proof (cases "map_of (tracks st) i")
    case None
    then show ?thesis
      using assms Some by (simp add: unpublishTrack_def split: completion.splits)
  next
    case reg: (Some lt)
    have e0: "emitting_inv {} st" using assms by (simp add: participant_inv_def)
    have idlt: "track_id lt = i"
      using assms reg by (simp add: participant_inv_iff inv_tracks_def)
    show ?thesis
    proof (cases "map_of (signaling_tracks st) (track_id lt)")
      case None
      then show ?thesis
        using assms Some reg by (simp add: unpublishTrack_def split: completion.splits)
    next
      case sg: (Some a)
      let ?st1 = "publishFailed a (WasUnpublished lt) st"
      let ?found = "getTrackPublication (trackPublications ?st1) (LocalTrackV lt)"
      let ?st2 = "case ?found of
                   None \<Rightarrow> ?st1
                 | Some p \<Rightarrow>
                     (let st' = publishedKindTracks_update (kind lt) (AList.delete (trackSid p)) ?st1
                      in st'\<lparr>trackPublications := AList.delete (trackSid p) (trackPublications st')\<rparr>)"
      have eq: "snd (unpublishTrack v st) = snd (removeTrack' lt ?st2)"
        using unpublishTrack_eq [OF Some reg sg] by (simp add: Let_def)
      note P = inv_publishFailed [OF assms, of a "WasUnpublished lt"]
      have i1: "participant_inv ?st1" using P by blast
      have e1: "emitting_inv {} ?st1" using i1 by (simp add: participant_inv_def)
      have len1: "length (attempts ?st1) = length (attempts st)" using P by blast
      have rel1: "\<forall>n < length (attempts st).
           a_track (attempts ?st1 ! n) = a_track (attempts st ! n)
           \<and> (live {} ?st1 (attempts ?st1 ! n) \<longrightarrow>
                live {} st (attempts st ! n) \<and> a_signaling (attempts st ! n) \<noteq> a)"
        using P by blast
      have shrink: "\<forall>j t. map_of (tracks ?st1) j = Some t \<longrightarrow> map_of (tracks st) j = Some t"
        using P by blast
      have d1: "distinct (map fst (trackPublications ?st1))"
        using i1 by (simp add: participant_inv_iff inv_pubs_def)
      have ip1: "inv_pubs ?st1" using i1 by (simp add: participant_inv_iff)
      have all2: "emitting_inv {} ?st2
          \<and> (\<forall>s p. map_of (trackPublications ?st2) s = Some p \<longrightarrow> track p \<noteq> lt)
          \<and> (tracks ?st2 = tracks ?st1 \<and> signaling_tracks ?st2 = signaling_tracks ?st1
            \<and> attempts ?st2 = attempts ?st1 \<and> store ?st2 = store ?st1)"
      proof (cases ?found)
        case None
        then have "\<forall>s p. map_of (trackPublications ?st1) s = Some p \<longrightarrow> track p \<noteq> lt"
          using getTrackPublication_LocalTrackV_None [OF d1] by blast
        then show ?thesis using None e1 by simp
      next
        case (Some p)
        obtain s where sp: "map_of (trackPublications ?st1) s = Some p" "track p = lt"
          using getTrackPublication_LocalTrackV_Some [OF d1 Some] by blast
        have ts: "trackSid p = s" using ip1 sp(1) unfolding inv_pubs_def by blast
        let ?k = "publishedKindTracks_update (kind lt) (AList.delete s) ?st1"
        let ?st2' = "?k\<lparr>trackPublications := AList.delete s (trackPublications ?k)\<rparr>"
        have s2: "?st2 = ?st2'" using Some ts by (simp add: Let_def)
        have fl: "trackPublications ?st2' = AList.delete s (trackPublications ?st1)"
          by simp
        have km: "\<forall>kd. publishedKindTracks kd ?st2' =
             (if kd = kind (track p) then AList.delete s (publishedKindTracks kd ?st1)
              else publishedKindTracks kd ?st1)"
          by (simp add: kind_maps_flat_update kind_update_maps sp(2))
        have ku: "tracks ?k = tracks ?st1 \<and> signaling_tracks ?k = signaling_tracks ?st1
              \<and> next_addr ?k = next_addr ?st1 \<and> timers ?k = timers ?st1
              \<and> attempts ?k = attempts ?st1 \<and> store ?k = store ?st1"
          by (simp add: publishedKindTracks_update_def split: Kind.splits)
        have "emitting_inv {} ?st2'"
          by (rule inv_delete_pub [OF e1 sp(1) fl km]) (simp_all add: ku)
        moreover have "\<forall>s' p'. map_of (trackPublications ?st2') s' = Some p' \<longrightarrow> track p' \<noteq> lt"
        proof (intro allI impI)
          fix s' p' assume h: "map_of (trackPublications ?st2') s' = Some p'"
          then have "s' \<noteq> s" "map_of (trackPublications ?st1) s' = Some p'"
            by (auto simp: delete_conv' split: if_splits)
          then show "track p' \<noteq> lt"
            using ip1 sp unfolding inv_pubs_def by metis
        qed
        moreover have "tracks ?st2' = tracks ?st1 \<and> signaling_tracks ?st2' = signaling_tracks ?st1
            \<and> attempts ?st2' = attempts ?st1 \<and> store ?st2' = store ?st1"
          by (simp add: ku)
        ultimately show ?thesis using s2 by simp
      qed
      have i2: "emitting_inv {} ?st2" using all2 by blast
      have nopub2: "\<forall>s p. map_of (trackPublications ?st2) s = Some p \<longrightarrow> track p \<noteq> lt"
        using all2 by blast
      have fr2: "tracks ?st2 = tracks ?st1" "signaling_tracks ?st2 = signaling_tracks ?st1"
        "attempts ?st2 = attempts ?st1" "store ?st2 = store ?st1"
        using all2 by blast+
      show ?thesis
      proof (cases "map_of (tracks ?st2) (track_id lt)")
        case None
        then have "snd (removeTrack' lt ?st2) = ?st2" by (simp add: removeTrack'_def)
        then show ?thesis using eq i2 by (simp add: participant_inv_def)
      next
        case (Some t'')
        let ?st3 = "snd (removeTrack' lt ?st2)"
        have "map_of (tracks st) (track_id lt) = Some t''"
          using Some fr2(1) shrink by simp
        then have t'': "t'' = lt" using reg idlt by simp
        have it2: "inv_tracks ?st2" using i2 by (simp add: emitting_inv_def)
        have tr: "tracks ?st3 = AList.delete (track_id lt) (tracks ?st2)"
          by (rule tracks_removeTrack'_eq)
        have sgc: "signaling_tracks ?st3 = signaling_tracks ?st2
            \<or> signaling_tracks ?st3 = AList.delete (track_id lt) (signaling_tracks ?st2)"
          by (rule signaling_tracks_removeTrack' [OF it2])
        have pv: "pubs_view ?st3 = pubs_view ?st2" by simp
        have na: "next_addr ?st3 = next_addr ?st2" by simp
        have st3: "store ?st3 = store ?st2" by simp
        have at3: "attempts ?st3 = attempts ?st2" by (rule attempts_removeTrack')
        have ti: "inv_timers ?st3" using i2 by (simp add: emitting_inv_def inv_timers_def)
        have len: "length (attempts ?st3) = length (attempts ?st2)" using at3 by simp
        have rel: "\<forall>n < length (attempts ?st2).
           a_track (attempts ?st3 ! n) = a_track (attempts ?st2 ! n)
           \<and> a_signaling (attempts ?st3 ! n) = a_signaling (attempts ?st2 ! n)
           \<and> (a_attached (attempts ?st3 ! n) \<longrightarrow> a_attached (attempts ?st2 ! n))
           \<and> (a_attached (attempts ?st3 ! n) \<and> live {} ?st2 (attempts ?st2 ! n) \<longrightarrow>
                track_id (a_track (attempts ?st2 ! n)) \<noteq> track_id lt)"
        proof (intro allI impI)
          fix n assume n: "n < length (attempts ?st2)"
          then have n0: "n < length (attempts st)" using fr2(3) len1 by simp
          have "live {} ?st2 (attempts ?st2 ! n) \<longrightarrow>
                  track_id (a_track (attempts ?st2 ! n)) \<noteq> track_id lt"
          proof
            assume "live {} ?st2 (attempts ?st2 ! n)"
            then have "live {} ?st1 (attempts ?st1 ! n)"
              unfolding live_def fr2(3) fr2(4) .
            then have an: "live {} st (attempts st ! n)" "a_signaling (attempts st ! n) \<noteq> a"
              using rel1 n0 by blast+
            have "map_of (signaling_tracks st) (track_id (a_track (attempts st ! n)))
                = Some (a_signaling (attempts st ! n))"
              by (rule live_facts(2) [OF e0 n0 an(1)])
            then have "track_id (a_track (attempts st ! n)) \<noteq> track_id lt"
              using sg an(2) by auto
            moreover have "a_track (attempts ?st2 ! n) = a_track (attempts st ! n)"
              unfolding fr2(3) using rel1 n0 by blast
            ultimately show "track_id (a_track (attempts ?st2 ! n)) \<noteq> track_id lt" by simp
          qed
          then show "a_track (attempts ?st3 ! n) = a_track (attempts ?st2 ! n)
           \<and> a_signaling (attempts ?st3 ! n) = a_signaling (attempts ?st2 ! n)
           \<and> (a_attached (attempts ?st3 ! n) \<longrightarrow> a_attached (attempts ?st2 ! n))
           \<and> (a_attached (attempts ?st3 ! n) \<and> live {} ?st2 (attempts ?st2 ! n) \<longrightarrow>
                track_id (a_track (attempts ?st2 ! n)) \<noteq> track_id lt)"
            unfolding at3 by blast
        qed
        have nopub: "\<forall>s p. map_of (trackPublications ?st2) s = Some p \<longrightarrow>
            track_id (track p) \<noteq> track_id lt"
        proof (intro allI impI)
          fix s p assume h: "map_of (trackPublications ?st2) s = Some p"
          have "inv_pubs ?st2" using i2 by (simp add: emitting_inv_def)
          then have "map_of (tracks ?st2) (track_id (track p)) = Some (track p)"
            using h unfolding inv_pubs_def by blast
          moreover have "track p \<noteq> lt" using nopub2 h by blast
          ultimately show "track_id (track p) \<noteq> track_id lt" using Some t'' by auto
        qed
        have "emitting_inv {} ?st3"
          by (rule inv_remove_track [OF i2 tr sgc pv na st3 ti len rel nopub])
        then show ?thesis using eq by (simp add: participant_inv_def)
      qed
    qed
  qed
qed


lemma inv_unpublishTrack_reduce: "participant_inv st \<Longrightarrow> participant_inv (snd (unpublishTrack_reduce acc vs st))"
proof (induction vs arbitrary: acc st)
  case Nil
  then show ?case by simp
next
  case (Cons v vs)
  obtain r st1 where u: "unpublishTrack v st = (r, st1)" by (cases "unpublishTrack v st")
  have st1: "participant_inv st1"
    using inv_unpublishTrack [OF Cons.prems, of v] u by simp
  have "\<And>acc'. participant_inv (snd (unpublishTrack_reduce acc' vs st1))"
    using Cons.IH st1 by blast
  then show ?case
    using u st1 by (simp split: completion.splits option.splits)
qed

lemma inv_unpublishTracks: "participant_inv st \<Longrightarrow> participant_inv (snd (unpublishTracks vs st))"
  by (simp add: unpublishTracks_def inv_unpublishTrack_reduce split: jsarg.splits)

lemma inv_run_timer:
  assumes "participant_inv st"
  shows "participant_inv (run_timer st)"
proof (cases "timers st")
  case Nil
  then show ?thesis using assms by (simp add: run_timer_def)
next
  case (Cons ev rest)
  have e: "emitting_inv {} st" using assms by (simp add: participant_inv_def)
  have ne: "\<forall>t. ev \<noteq> trackAdded t \<and> ev \<noteq> trackRemoved t"
    using assms Cons by (simp add: participant_inv_iff inv_timers_def)
  let ?s = "st\<lparr>timers := rest\<rparr>"
  have em: "emit ev ?s = do_effect (Emit ev) ?s"
    using ne by (cases ev) (simp_all add: emit_def Let_def)
  have eq: "run_timer st = do_effect (Emit ev) ?s"
    using Cons em by (simp add: run_timer_def)
  have it: "inv_timers (do_effect (Emit ev) ?s)"
    using assms Cons by (simp add: participant_inv_iff inv_timers_def do_effect_def)
  have "emitting_inv {} (do_effect (Emit ev) ?s)"
    by (rule inv_detach [OF e _ _ _ _ _ it]) (simp_all add: do_effect_def pubs_view_def)
  then show ?thesis using eq by (simp add: participant_inv_def)
qed

lemma core_foldl_stop:
  "tracks (foldl (\<lambda>s t. stop t s) st ts) = tracks st
   \<and> signaling_tracks (foldl (\<lambda>s t. stop t s) st ts) = signaling_tracks st
   \<and> pubs_view (foldl (\<lambda>s t. stop t s) st ts) = pubs_view st
   \<and> next_addr (foldl (\<lambda>s t. stop t s) st ts) = next_addr st
   \<and> attempts (foldl (\<lambda>s t. stop t s) st ts) = attempts st
   \<and> timers (foldl (\<lambda>s t. stop t s) st ts) = timers st
   \<and> store (foldl (\<lambda>s t. stop t s) st ts) = store st"
  by (induction ts arbitrary: st) (simp_all add: stop_def do_effect_def pubs_view_def)

lemma inv_signaling_stateChanged:
  assumes "participant_inv st"
  shows "participant_inv (signaling_stateChanged state st)"
proof -
  let ?s = "st\<lparr>signaling_state := state\<rparr>"
  let ?st5 = "removeListener localTrackRemoved_h (removeListener localTrackEnabled_h
      (removeListener localTrackDisabled_h (removeListener localTrackAdded_h
      (removeListener stateChanged_h ?s))))"
  have c5: "tracks ?st5 = tracks st \<and> signaling_tracks ?st5 = signaling_tracks st
      \<and> pubs_view ?st5 = pubs_view st \<and> next_addr ?st5 = next_addr st
      \<and> attempts ?st5 = attempts st \<and> timers ?st5 = timers st
      \<and> store ?st5 = store st"
    by (simp add: removeListener_def do_effect_def pubs_view_def)
  have e: "emitting_inv {} st" using assms by (simp add: participant_inv_def)
  have "emitting_inv {} ?s"
    by (rule inv_same [OF e]) (simp_all add: pubs_view_def)
  then have i1: "participant_inv ?s" by (simp add: participant_inv_def)
  have "emitting_inv {} (foldl (\<lambda>s t. stop t s) ?st5 (tracksToStop ?st5))"
    by (rule inv_same [OF e]) (simp_all only: core_foldl_stop c5)
  then have i5: "participant_inv (foldl (\<lambda>s t. stop t s) ?st5 (tracksToStop ?st5))"
    by (simp add: participant_inv_def)
  show ?thesis
  proof (cases "state = ''disconnected''")
    case True
    then show ?thesis
      using i1 i5 by (simp add: signaling_stateChanged_def stateChanged_def Let_def)
  next
    case False
    then show ?thesis
      using i1 by (simp add: signaling_stateChanged_def stateChanged_def Let_def)
  qed
qed

lemma inv_step:
  assumes "participant_inv st" and "admissible a st"
  shows "participant_inv (step a st)"
proof (cases a)
  case (SetSid x s)
  then have "map_of (trackPublications st) s = None \<or> \<not> submitting (store st x)"
    using assms(2) by (auto simp: map_of_eq_None_iff)
  then show ?thesis using SetSid inv_setSid [OF assms(1)] by simp
next
  case (PublishFailed x err)
  then show ?thesis using inv_publishFailed [OF assms(1)] by simp
qed (simp_all add: assms(1) inv_publishTrack inv_publishTracks inv_unpublishTrack
      inv_unpublishTracks inv_signaling_stateChanged inv_run_timer)

lemma inv_run:
  "participant_inv st \<Longrightarrow> admissible_run as st \<Longrightarrow> participant_inv (run as st)"
  unfolding run_def
proof (induction as arbitrary: st)
  case Nil
  then show ?case by simp
next
  case (Cons a as)
  have "participant_inv (step a st)" using Cons.prems by (simp add: inv_step)
  then show ?case using Cons.IH [of "step a st"] Cons.prems by simp
qed

lemma registry_entry_lookup:
  assumes "\<And>s p. map_of reg s = Some p \<Longrightarrow> Q p"
  shows "\<forall>s \<in> fst ` set reg. case map_of reg s of None \<Rightarrow> False | Some p \<Rightarrow> Q p"
proof
  fix s assume "s \<in> fst ` set reg"
  then have "map_of reg s \<noteq> None" by (simp add: map_of_eq_None_iff)
  then obtain p where "map_of reg s = Some p" by blast
  then show "case map_of reg s of None \<Rightarrow> False | Some p \<Rightarrow> Q p"
    using assms by simp
qed

lemma inv_registry_consistent:
  assumes "participant_inv st"
  shows "registry_consistent st"
proof -
  have ip: "inv_pubs st" using assms by (simp add: participant_inv_iff)
  have flat: "\<And>s p. map_of (trackPublications st) s = Some p \<Longrightarrow>
      map_of (tracks st) (track_id (track p)) = Some (track p)"
    using ip unfolding inv_pubs_def by blast
  have kindm: "\<And>k s p. map_of (publishedKindTracks k st) s = Some p \<Longrightarrow>
      map_of (tracks st) (track_id (track p)) = Some (track p)"
    using ip flat unfolding inv_pubs_def by blast
  have a: "publishedKindTracks audio st = audioTrackPublications st"
    and v: "publishedKindTracks video st = videoTrackPublications st"
    and d: "publishedKindTracks data st = dataTrackPublications st"
    by (simp_all add: publishedKindTracks_def)
  show ?thesis
    unfolding registry_consistent_def publication_registries_def
    using registry_entry_lookup [of "trackPublications st"] flat
      registry_entry_lookup [of "audioTrackPublications st"] kindm [of audio]
      registry_entry_lookup [of "videoTrackPublications st"] kindm [of video]
      registry_entry_lookup [of "dataTrackPublications st"] kindm [of data]
    by (simp add: a v d)
qed

lemma set_update_subset:
  "(i, x) \<in> set (AList.update k v m) \<Longrightarrow> (i, x) \<in> set m \<or> (i, x) = (k, v)"
  by (induction m) (auto split: if_splits)

lemma index_tracks_fold:
  assumes "distinct (map fst m)" and "\<forall>(i, t) \<in> set m. track_id t = i"
  shows "distinct (map fst (foldl (\<lambda>m t. if map_of m (track_id t) \<noteq> None then m
                                        else AList.update (track_id t) t m) m ts))
     \<and> (\<forall>(i, t) \<in> set (foldl (\<lambda>m t. if map_of m (track_id t) \<noteq> None then m
                                        else AList.update (track_id t) t m) m ts).
           track_id t = i)"
  using assms
proof (induction ts arbitrary: m)
  case Nil
  then show ?case by simp
next
  case (Cons t ts)
  let ?m' = "if map_of m (track_id t) \<noteq> None then m else AList.update (track_id t) t m"
  have d: "distinct (map fst ?m')"
    using Cons.prems(1) by (simp add: distinct_update)
  have k: "\<forall>(i, x) \<in> set ?m'. track_id x = i"
    using Cons.prems(2) set_update_subset [of _ _ "track_id t" t m] by (auto split: if_splits)
  show ?case
    using Cons.IH [OF d k] by simp
qed

lemma index_tracks_props:
  "distinct (map fst (index_tracks ts)) \<and> (\<forall>(i, t) \<in> set (index_tracks ts). track_id t = i)"
  unfolding index_tracks_def by (rule index_tracks_fold) simp_all

lemma inv_signaling_new_record:
  assumes "inv_signaling st"
    and "signaling_tracks st' = AList.update i (next_addr st) (signaling_tracks st)"
    and "next_addr st' = Suc (next_addr st)"
  shows "inv_signaling st'"
proof -
  have old: "\<forall>j a. map_of (signaling_tracks st) j = Some a \<longrightarrow> a < next_addr st"
    and inj: "\<forall>j1 j2 a. map_of (signaling_tracks st) j1 = Some a \<longrightarrow>
         map_of (signaling_tracks st) j2 = Some a \<longrightarrow> j1 = j2"
    using assms(1) by (auto simp: inv_signaling_def)
  show ?thesis
    unfolding inv_signaling_def
  proof (intro conjI allI impI)
    fix j1 j2 a
    assume a: "map_of (signaling_tracks st') j1 = Some a" "map_of (signaling_tracks st') j2 = Some a"
    show "j1 = j2"
    proof (cases "j1 = i")
      case True
      then have "a = next_addr st" using a(1) assms(2) by (simp add: update_conv')
      then show ?thesis
        using a(2) assms(2) True old by (cases "j2 = i") (auto simp: update_conv')
    next
      case False
      then have ia: "map_of (signaling_tracks st) j1 = Some a"
        using a(1) assms(2) by (simp add: update_conv')
      then have "a < next_addr st" using old by blast
      then have "j2 \<noteq> i" using a(2) assms(2) by (auto simp: update_conv')
      then have "map_of (signaling_tracks st) j2 = Some a"
        using a(2) assms(2) by (simp add: update_conv')
      then show ?thesis using ia inj by blast
    qed
  next
    fix j a
    assume "map_of (signaling_tracks st') j = Some a"
    then show "a < next_addr st'"
      using assms(2,3) old by (cases "j = i") (auto simp: update_conv' less_Suc_eq)
  qed
qed

text \<open>A new signaling record for an identity that no attached attempt uses.\<close>

lemma inv_localTrackAdded:
  assumes "participant_inv st"
    and "\<forall>n < length (attempts st). a_attached (attempts st ! n) \<longrightarrow>
           track_id (a_track (attempts st ! n)) \<noteq> track_id t"
  shows "participant_inv (localTrackAdded t st)"
proof -
  let ?st' = "localTrackAdded t st"
  have e: "emitting_inv {} st" using assms(1) by (simp add: participant_inv_def)
  have f: "tracks ?st' = tracks st" "trackPublications ?st' = trackPublications st"
    "attempts ?st' = attempts st" "timers ?st' = timers st"
    "signaling_tracks ?st' = AList.update (track_id t) (next_addr st) (signaling_tracks st)"
    "next_addr ?st' = Suc (next_addr st)"
    by (simp_all add: localTrackAdded_def signaling_addTrack_def)
  have so: "\<forall>b < next_addr st. store ?st' b = store st b"
    by (simp add: localTrackAdded_def signaling_addTrack_def)
  have km: "\<And>k. publishedKindTracks k ?st' = publishedKindTracks k st"
    by (rule kind_maps_frame) (simp_all add: localTrackAdded_def signaling_addTrack_def)
  have t: "inv_tracks ?st'" using assms(1) f(1) by (simp add: participant_inv_iff inv_tracks_def)
  have p: "inv_pubs ?st'"
    using assms(1) unfolding participant_inv_iff inv_pubs_def f(1) f(2) km by simp
  have s: "inv_signaling ?st'"
    using inv_signaling_new_record [OF _ f(5) f(6)] assms(1) by (simp add: participant_inv_iff)
  have a: "inv_attempts {} ?st'"
    unfolding inv_attempts_def
  proof (intro allI impI)
    fix n assume n: "n < length (attempts ?st')"
    then have n': "n < length (attempts st)" using f(3) by simp
    have ok: "attempt_ok {} st (attempts st ! n)"
      using e n' by (simp add: emitting_inv_def inv_attempts_def)
    then have al: "a_signaling (attempts st ! n) < next_addr st"
      by (simp add: attempt_ok_def)
    show "attempt_ok {} ?st' (attempts ?st' ! n)"
      unfolding f(3)
    proof (rule attempt_ok_transfer [OF ok])
      show "a_track (attempts st ! n) = a_track (attempts st ! n)
          \<and> a_signaling (attempts st ! n) = a_signaling (attempts st ! n)
          \<and> (a_attached (attempts st ! n) \<longrightarrow> a_attached (attempts st ! n))" by simp
      show "next_addr st \<le> next_addr ?st'" using f(6) by simp
      show "submitting (store ?st' (a_signaling (attempts st ! n)))
          \<longrightarrow> submitting (store st (a_signaling (attempts st ! n)))"
        using so al by simp
    next
      assume l: "live {} st (attempts st ! n)" and at: "a_attached (attempts st ! n)"
      note F = live_facts [OF e n' l]
      have ne: "track_id (a_track (attempts st ! n)) \<noteq> track_id t"
        using assms(2) n' at by blast
      show "map_of (tracks ?st') (track_id (a_track (attempts st ! n)))
              = Some (a_track (attempts st ! n))
          \<and> map_of (signaling_tracks ?st') (track_id (a_track (attempts st ! n)))
              = Some (a_signaling (attempts st ! n))
          \<and> (\<forall>s p. map_of (trackPublications ?st') s = Some p \<longrightarrow>
                track p \<noteq> a_track (attempts st ! n))"
        using F ne unfolding f by (simp add: update_conv')
    qed
  qed
  have ti: "inv_timers ?st'" using assms(1) f(4) by (simp add: participant_inv_iff inv_timers_def)
  show ?thesis using t p s a ti by (simp add: participant_inv_iff)
qed

lemma inv_handle_fold:
  assumes "participant_inv st" and "trackPublications st = []"
    and "\<forall>t \<in> set ts. map_of (tracks st) (track_id t) = Some t"
    and "distinct (map track_id ts)"
    and "\<forall>n < length (attempts st). a_attached (attempts st ! n) \<longrightarrow>
           track_id (a_track (attempts st ! n)) \<notin> track_id ` set ts"
  shows "participant_inv (foldl (\<lambda>s t. snd (getOrCreateLocalTrackPublication t (localTrackAdded t s))) st ts)"
  using assms
proof (induction ts arbitrary: st)
  case Nil
  then show ?case by simp
next
  case (Cons t ts)
  let ?s1 = "localTrackAdded t st"
  let ?s2 = "snd (getOrCreateLocalTrackPublication t ?s1)"
  have na: "\<forall>n < length (attempts st). a_attached (attempts st ! n) \<longrightarrow>
           track_id (a_track (attempts st ! n)) \<noteq> track_id t"
    using Cons.prems(5) by auto
  have i1: "participant_inv ?s1" by (rule inv_localTrackAdded [OF Cons.prems(1) na])
  have f1: "tracks ?s1 = tracks st" "trackPublications ?s1 = trackPublications st"
    "attempts ?s1 = attempts st"
    "map_of (signaling_tracks ?s1) (track_id t) = Some (next_addr st)"
    by (simp_all add: localTrackAdded_def signaling_addTrack_def update_conv')
  have reg: "map_of (tracks ?s1) (track_id t) = Some t"
    using Cons.prems(3) f1(1) by simp
  have i2: "participant_inv ?s2" by (rule inv_getOrCreate [OF i1 reg])
  have g: "getTrackPublication (trackPublications ?s1) (LocalTrackV t) = None"
    using Cons.prems(2) f1(2) by (simp add: getTrackPublication_def)
  have s2: "?s2 = ?s1\<lparr>attempts := attempts ?s1 @
        [\<lparr>a_track = t, a_signaling = next_addr st, a_attached = True, a_promise = Pending\<rparr>]\<rparr>"
    using g f1(4) by (simp add: getOrCreateLocalTrackPublication_def)
  have f2: "tracks ?s2 = tracks st" "trackPublications ?s2 = []"
    "attempts ?s2 = attempts st @
        [\<lparr>a_track = t, a_signaling = next_addr st, a_attached = True, a_promise = Pending\<rparr>]"
    by (simp_all add: s2 f1 Cons.prems(2))
  have r: "\<forall>t' \<in> set ts. map_of (tracks ?s2) (track_id t') = Some t'"
    using Cons.prems(3) f2(1) by simp
  have d: "distinct (map track_id ts)" and tn: "track_id t \<notin> track_id ` set ts"
    using Cons.prems(4) by simp_all
  have na2: "\<forall>n < length (attempts ?s2). a_attached (attempts ?s2 ! n) \<longrightarrow>
           track_id (a_track (attempts ?s2 ! n)) \<notin> track_id ` set ts"
  proof (intro allI impI)
    fix n assume n: "n < length (attempts ?s2)" and at: "a_attached (attempts ?s2 ! n)"
    show "track_id (a_track (attempts ?s2 ! n)) \<notin> track_id ` set ts"
    proof (cases "n < length (attempts st)")
      case True
      then have "attempts ?s2 ! n = attempts st ! n" by (simp add: f2(3) nth_append)
      then show ?thesis using Cons.prems(5) True at by auto
    next
      case False
      then have "n = length (attempts st)" using n by (simp add: f2(3))
      then show ?thesis using tn by (simp add: f2(3))
    qed
  qed
  show ?case
    using Cons.IH [OF i2 f2(2) r d na2] by simp
qed

lemma inv_new: "participant_inv (LocalParticipant_new state localTracks options)"
proof -
  let ?registry = "case opt_tracks options of None \<Rightarrow> localTracks | Some ts \<Rightarrow> ts"
  let ?should = "case shouldStopLocalTracks options of None \<Rightarrow> False | Some b \<Rightarrow> b"
  let ?toStop = "if ?should then js_Set (filter (\<lambda>localTrack. kind localTrack \<noteq> data) localTracks)
                 else []"
  let ?r0 = "\<lparr>tracks = index_tracks ?registry,
            trackPublications = [],
            audioTrackPublications = [],
            videoTrackPublications = [],
            dataTrackPublications = [],
            tracksToStop = ?toStop,
            listeners = [],
            signaling_state = state,
            signaling_tracks = [],
            store = (\<lambda>_. \<lparr>sid = None, error = None\<rparr>),
            next_addr = 0,
            attempts = [],
            timers = [],
            effects = [],
            next_ref = 0\<rparr>"
  have eq: "LocalParticipant_new state localTracks options = handleTrackSignalingEvents ?r0"
    by (simp add: LocalParticipant_new_def Let_def)
  note IP = index_tracks_props [of ?registry]
  have dk: "distinct (map fst (index_tracks ?registry))"
    and key: "\<forall>(i, t) \<in> set (index_tracks ?registry). track_id t = i"
    using IP by blast+
  have it: "inv_tracks ?r0"
    unfolding inv_tracks_def
  proof (intro allI impI)
    fix i t assume "map_of (tracks ?r0) i = Some t"
    then have "(i, t) \<in> set (index_tracks ?registry)" by (auto dest: map_of_SomeD)
    then show "track_id t = i" using key by auto
  qed
  have i0: "participant_inv ?r0"
    using it
    by (simp add: participant_inv_iff inv_pubs_def inv_signaling_def inv_attempts_def inv_timers_def
        publishedKindTracks_def split: Kind.splits)
  show ?thesis
  proof (cases "state = ''disconnected''")
    case True
    then show ?thesis using i0 eq by (simp add: handleTrackSignalingEvents_def)
  next
    case False
    let ?st1 = "?r0\<lparr>listeners := listeners ?r0 @
                      [localTrackAdded_h, localTrackDisabled_h, localTrackEnabled_h,
                       localTrackRemoved_h]\<rparr>"
    let ?ts = "map snd (tracks ?st1)"
    let ?st2 = "foldl (\<lambda>s t. snd (getOrCreateLocalTrackPublication t (localTrackAdded t s)))
                     ?st1 ?ts"
    have "emitting_inv {} ?st1"
      by (rule inv_same [of "{}" ?r0]) (use i0 in \<open>simp_all add: pubs_view_def participant_inv_def\<close>)
    then have i1: "participant_inv ?st1" by (simp add: participant_inv_def)
    have ids: "map track_id ?ts = map fst (index_tracks ?registry)"
      using key by (auto simp: case_prod_beta)
    have d: "distinct (map track_id ?ts)" by (simp only: ids dk)
    have r: "\<forall>t \<in> set ?ts. map_of (tracks ?st1) (track_id t) = Some t"
    proof
      fix t assume "t \<in> set ?ts"
      then obtain i where m: "(i, t) \<in> set (index_tracks ?registry)" by auto
      then have "track_id t = i" using key by auto
      then show "map_of (tracks ?st1) (track_id t) = Some t"
        using m dk by simp
    qed
    have i2: "participant_inv ?st2"
      by (rule inv_handle_fold [OF i1 _ r d]) simp_all
    have "emitting_inv {} (?st2\<lparr>listeners := listeners ?st2 @ [stateChanged_h]\<rparr>)"
      by (rule inv_same [of "{}" ?st2]) (use i2 in \<open>simp_all add: pubs_view_def participant_inv_def\<close>)
    then have "participant_inv (?st2\<lparr>listeners := listeners ?st2 @ [stateChanged_h]\<rparr>)"
      by (simp add: participant_inv_def)
    then show ?thesis
      using False eq by (simp add: handleTrackSignalingEvents_def Let_def)
  qed
qed





section \<open>Unpublishing a track that has a signaling record\<close>

lemma unpublishTrack_not_registered:
  assumes "id_of v = Some i" and "map_of (tracks st) i = None"
  shows "unpublishTrack v st = (Return None, st)"
  using assms id_of_accepted [OF assms(1)]
  by (simp add: unpublishTrack_def validateLocalTrack_def)

lemma effects_updated_prefix: "\<exists>es. effects (updated n st) = effects st @ es"
proof -
  have rt: "\<And>t x. \<exists>es. effects (snd (removeTrack' t x)) = effects x @ es"
    by (simp add: effects_removeTrack')
  show ?thesis
  proof (cases "error (store st (a_signaling (attempts st ! n)))")
    case (Some err)
    obtain es where "effects (snd (removeTrack' (a_track (attempts st ! n))
        (removeListener_updated n st))) = effects st @ es"
      using rt [of "a_track (attempts st ! n)" "removeListener_updated n st"] by auto
    then show ?thesis by (simp add: updated_error_eq [OF Some])
  next
    case None
    show ?thesis
    proof (cases "map_of (tracks st) (track_id (a_track (attempts st ! n)))")
      case None' : None
      then show ?thesis using None by (simp add: updated_def Let_def)
    next
      case (Some t')
      show ?thesis
      proof (cases "sid (store st (a_signaling (attempts st ! n)))")
        case None'' : None
        then show ?thesis using None Some by (simp add: updated_def Let_def)
      next
        case sd: (Some s)
        show ?thesis
        proof (cases "s = []")
          case True
          then show ?thesis using None Some sd by (simp add: updated_def Let_def)
        next
          case False
          have reg: "map_of (tracks st) (track_id (a_track (attempts st ! n))) \<noteq> None"
            using Some by simp
          show ?thesis
            using updated_sid_eq [OF None reg sd False refl]
            by (cases "getTrackPublication (trackPublications st)
                         (LocalTrackV (a_track (attempts st ! n)))")
               (simp_all add: Let_def)
        qed
      qed
    qed
  qed
qed

lemma effects_foldl_updated_prefix:
  "\<exists>es. effects (foldl (\<lambda>s n. updated n s) st ns) = effects st @ es"
proof (induction ns arbitrary: st)
  case Nil
  then show ?case by simp
next
  case (Cons n ns)
  obtain e1 where e1: "effects (updated n st) = effects st @ e1"
    using effects_updated_prefix by blast
  obtain e2 where "effects (foldl (\<lambda>s n. updated n s) (updated n st) ns)
      = effects (updated n st) @ e2"
    using Cons.IH by blast
  then have "effects (foldl (\<lambda>s n. updated n s) st (n # ns)) = effects st @ (e1 @ e2)"
    using e1 by simp
  then show ?case by blast
qed

text \<open>
  \<open>unpublishTrack\<close> of a registered track that has a signaling record: the publication of
  the track, if there is one, is returned, afterwards no publication registry holds a
  publication of the track, the track has left the track registry, and \<open>trackRemoved\<close>
  was emitted for it.
\<close>

lemma unpublishTrack_with_record:
  assumes "participant_inv st" and "id_of v = Some i" and "map_of (tracks st) i = Some lt"
    and "map_of (signaling_tracks st) (track_id lt) = Some a"
  shows "fst (unpublishTrack v st)
           = Return (getTrackPublication (trackPublications st) (LocalTrackV lt))
     \<and> map_of (tracks (snd (unpublishTrack v st))) i = None
     \<and> (\<forall>reg \<in> set (publication_registries (snd (unpublishTrack v st))).
           \<forall>s p. map_of reg s = Some p \<longrightarrow> track p \<noteq> lt)
     \<and> (\<exists>es. effects (snd (unpublishTrack v st)) = effects st @ es
              \<and> Emit (trackRemoved lt) \<in> set es)"
proof -
  let ?st' = "snd (unpublishTrack v st)"
  let ?st1 = "publishFailed a (WasUnpublished lt) st"
  let ?found = "getTrackPublication (trackPublications ?st1) (LocalTrackV lt)"
  let ?st2 = "case ?found of
                   None \<Rightarrow> ?st1
                 | Some p \<Rightarrow>
                     (let st' = publishedKindTracks_update (kind lt) (AList.delete (trackSid p)) ?st1
                      in st'\<lparr>trackPublications := AList.delete (trackSid p) (trackPublications st')\<rparr>)"
  have e0: "emitting_inv {} st" using assms(1) by (simp add: participant_inv_def)
  have idlt: "track_id lt = i"
    using assms(1,3) by (simp add: participant_inv_iff inv_tracks_def)
  note E = unpublishTrack_eq [OF assms(2) assms(3) assms(4)]
  note P = inv_publishFailed [OF assms(1), of a "WasUnpublished lt"]
  have pv1: "trackPublications ?st1 = trackPublications st"
    using P flat_of_view by blast
  have r1: "fst (unpublishTrack v st)
           = Return (getTrackPublication (trackPublications st) (LocalTrackV lt))"
    using E pv1 by (simp add: Let_def)
  have eq: "?st' = snd (removeTrack' lt ?st2)"
    using E by (simp add: Let_def)
  have r2: "map_of (tracks ?st') i = None"
    using eq tracks_removeTrack' [of lt ?st2] idlt by simp
  have inv': "participant_inv ?st'" by (rule inv_unpublishTrack [OF assms(1)])
  have ip: "inv_pubs ?st'" using inv' by (simp add: participant_inv_iff)
  have flat: "\<forall>s p. map_of (trackPublications ?st') s = Some p \<longrightarrow> track p \<noteq> lt"
  proof (intro allI impI)
    fix s p assume "map_of (trackPublications ?st') s = Some p"
    then have "map_of (tracks ?st') (track_id (track p)) = Some (track p)"
      using ip unfolding inv_pubs_def by blast
    then show "track p \<noteq> lt" using r2 idlt by auto
  qed
  have kindm: "\<forall>k s p. map_of (publishedKindTracks k ?st') s = Some p \<longrightarrow> track p \<noteq> lt"
    using ip flat unfolding inv_pubs_def by blast
  have r3: "\<forall>reg \<in> set (publication_registries ?st').
           \<forall>s p. map_of reg s = Some p \<longrightarrow> track p \<noteq> lt"
    using flat kindm [rule_format, of audio] kindm [rule_format, of video] kindm [rule_format, of data]
    by (auto simp: publication_registries_def publishedKindTracks_def)
  have e2: "effects ?st2 = effects ?st1"
    by (cases ?found) (simp_all add: Let_def)
  have t2: "tracks ?st2 = tracks ?st1"
    by (cases ?found) (simp_all add: Let_def publishedKindTracks_update_def split: Kind.splits)
  let ?s = "st\<lparr>store := (store st)(a := (store st a)\<lparr>error := Some (WasUnpublished lt)\<rparr>)\<rparr>"
  let ?ns = "updated_listeners a ?s"
  have F: "submitting (store st a) \<Longrightarrow> ?st1 = foldl (\<lambda>s n. updated n s) ?s ?ns"
    by (simp add: publishFailed_def emit_updated_def)
  have N: "\<not> submitting (store st a) \<Longrightarrow> ?st1 = st"
    by (simp add: publishFailed_def)
  obtain e1 where e1: "effects ?st1 = effects st @ e1"
  proof (cases "submitting (store st a)")
    case True
    then show ?thesis
      using effects_foldl_updated_prefix [of ?s ?ns] F that by auto
  next
    case False
    then show ?thesis using N that [of "[]"] by simp
  qed
  have r4: "\<exists>es. effects ?st' = effects st @ es \<and> Emit (trackRemoved lt) \<in> set es"
  proof (cases "map_of (tracks ?st1) (track_id lt)")
    case (Some t'')
    have "map_of (tracks st) (track_id lt) = Some t''" using P Some by blast
    then have "t'' = lt" using assms(3) idlt by simp
    then have "effects ?st' = effects st @ (e1 @ [Emit (trackRemoved lt)])"
      using eq Some t2 e1 e2 by (simp add: effects_removeTrack')
    then show ?thesis by (intro exI [of _ "e1 @ [Emit (trackRemoved lt)]"]) simp
  next
    case None
    then have same: "effects ?st' = effects ?st1"
      using eq t2 e2 by (simp add: effects_removeTrack')
    have sub: "submitting (store st a)"
    proof (rule ccontr)
      assume "\<not> submitting (store st a)"
      then have "tracks ?st1 = tracks st" using N by simp
      then show False using None assms(3) idlt by simp
    qed
    note F' = F [OF sub]
    have "?ns \<noteq> []"
    proof
      assume "?ns = []"
      then have "tracks ?st1 = tracks st" using F' by simp
      then show False using None assms(3) idlt by simp
    qed
    then obtain k ks where ns: "?ns = k # ks" by (cases ?ns) auto
    then have kin: "k \<in> set ?ns" by simp
    have kp: "k < length (attempts st)" "a_signaling (attempts st ! k) = a"
      "a_attached (attempts st ! k)"
      using kin by (simp_all add: updated_listeners_def)
    have lk: "live {} st (attempts st ! k)"
      unfolding live_def kp(2) using kp(3) sub by simp
    note L = live_facts [OF e0 kp(1) lk]
    have ok: "map_of (tracks st) (track_id (a_track (attempts st ! k)))
          = Some (a_track (attempts st ! k))"
      "map_of (signaling_tracks st) (track_id (a_track (attempts st ! k))) = Some a"
      using L(1) L(2) by (simp_all only: kp(2))
    have "inv_signaling st" using assms(1) by (simp add: participant_inv_iff)
    then have "track_id (a_track (attempts st ! k)) = track_id lt"
      using ok(2) assms(4) unfolding inv_signaling_def by blast
    then have ltk: "a_track (attempts st ! k) = lt"
      using ok(1) assms(3) idlt by simp
    have ek: "error (store ?s (a_signaling (attempts ?s ! k))) = Some (WasUnpublished lt)"
      using kp(2) by simp
    have ef: "effects (updated k ?s) = effects st @ [Emit (trackRemoved lt),
        SetTimeout (trackPublicationFailed (WasUnpublished lt) lt)]"
      using ltk assms(3) idlt by (simp add: updated_error_eq [OF ek] effects_removeTrack')
    obtain e3 where "effects (foldl (\<lambda>s n. updated n s) (updated k ?s) ks)
        = effects (updated k ?s) @ e3"
      using effects_foldl_updated_prefix by blast
    then have "effects ?st1 = effects st @ ([Emit (trackRemoved lt),
        SetTimeout (trackPublicationFailed (WasUnpublished lt) lt)] @ e3)"
      using F' ns ef by simp
    then show ?thesis
      using same
      by (intro exI [of _ "[Emit (trackRemoved lt),
        SetTimeout (trackPublicationFailed (WasUnpublished lt) lt)] @ e3"]) simp
  qed
  show ?thesis using r1 r2 r3 r4 by blast
qed


end
